theory Spec2Isabelle
  imports Complex_Main "HOL-Library.Word"
begin

unbundle bit_operations_syntax

section \<open>Python values used by the fixture generator\<close>

text \<open>
  The generator (\<^verbatim>\<open>scripts/generate_fixtures.py\<close>) works on Python \<^verbatim>\<open>bytes\<close>,
  \<^verbatim>\<open>str\<close> and unbounded integers. Bytes are lists of 8-bit words, a \<^verbatim>\<open>str\<close> is the
  list of its code points, integers are \<open>int\<close>. Every exception the code can raise is
  a value of \<open>error\<close>; a computation that may raise returns \<open>error + 'a\<close>.
\<close>

type_synonym byte = "8 word"
type_synonym bytes = "byte list"
type_synonym pystr = "nat list"

datatype error = StructError | AssertionError | IndexError | UnicodeEncodeError

text \<open>A \<^verbatim>\<open>str\<close> literal of ASCII characters, as the list of its code points.\<close>

definition lit :: "string \<Rightarrow> pystr" where
  "lit s = map of_char s"

text \<open>\<^verbatim>\<open>len(x)\<close> as a Python integer.\<close>

definition len :: "'a list \<Rightarrow> int" where
  "len xs = int (length xs)"

text \<open>
  Chained \<^verbatim>\<open>+=\<close> on a bytes value: the pieces are evaluated left to right and the
  first one that raises ends the computation.
\<close>

fun cat :: "(error + bytes) list \<Rightarrow> error + bytes" where
  "cat [] = Inr []"
| "cat (r # rs) =
     (case r of
        Inl e \<Rightarrow> Inl e
      | Inr b \<Rightarrow> (case cat rs of Inl e \<Rightarrow> Inl e | Inr bs \<Rightarrow> Inr (b @ bs)))"

text \<open>A list built element by element, each element possibly raising.\<close>

fun collect :: "(error + 'a) list \<Rightarrow> error + 'a list" where
  "collect [] = Inr []"
| "collect (r # rs) =
     (case r of
        Inl e \<Rightarrow> Inl e
      | Inr x \<Rightarrow> (case collect rs of Inl e \<Rightarrow> Inl e | Inr xs \<Rightarrow> Inr (x # xs)))"

subsection \<open>\<^verbatim>\<open>struct.pack\<close>, little endian\<close>

text \<open>
  \<open>le_bytes n v\<close> are the \<open>n\<close> low-order bytes of \<open>v\<close>, least significant first
  (two's complement for a negative \<open>v\<close>). \<^verbatim>\<open>struct.pack\<close> raises \<^verbatim>\<open>struct.error\<close>
  when the value does not fit the format.
\<close>

fun le_bytes :: "nat \<Rightarrow> int \<Rightarrow> bytes" where
  "le_bytes 0 v = []"
| "le_bytes (Suc n) v = word_of_int v # le_bytes n (v div 256)"

definition pack_B :: "int \<Rightarrow> error + bytes" where
  "pack_B v = (if 0 \<le> v \<and> v < 2 ^ 8 then Inr (le_bytes 1 v) else Inl StructError)"

definition pack_H :: "int \<Rightarrow> error + bytes" where
  "pack_H v = (if 0 \<le> v \<and> v < 2 ^ 16 then Inr (le_bytes 2 v) else Inl StructError)"

definition pack_I :: "int \<Rightarrow> error + bytes" where
  "pack_I v = (if 0 \<le> v \<and> v < 2 ^ 32 then Inr (le_bytes 4 v) else Inl StructError)"

definition pack_i :: "int \<Rightarrow> error + bytes" where
  "pack_i v = (if - (2 ^ 31) \<le> v \<and> v < 2 ^ 31 then Inr (le_bytes 4 v) else Inl StructError)"

definition pack_Q :: "int \<Rightarrow> error + bytes" where
  "pack_Q v = (if 0 \<le> v \<and> v < 2 ^ 64 then Inr (le_bytes 8 v) else Inl StructError)"

text \<open>\<^verbatim>\<open>struct.pack("<128I", *xs)\<close>: exactly 128 arguments, each a \<^verbatim>\<open>uint32\<close>.\<close>

definition pack_128I :: "int list \<Rightarrow> error + bytes" where
  "pack_128I xs = (if length xs = 128 then cat (map pack_I xs) else Inl StructError)"

subsection \<open>\<^verbatim>\<open>bytes.ljust\<close>, \<^verbatim>\<open>str.encode\<close>, list item assignment\<close>

definition ljust :: "bytes \<Rightarrow> nat \<Rightarrow> byte \<Rightarrow> bytes" where
  "ljust b width fill = b @ replicate (width - length b) fill"

text \<open>
  \<^verbatim>\<open>str.encode("utf-16-le")\<close>: one 16-bit unit for a code point of the basic plane, a
  surrogate pair above it, and \<^verbatim>\<open>UnicodeEncodeError\<close> for a lone surrogate.
\<close>

definition utf16le_cp :: "nat \<Rightarrow> error + bytes" where
  "utf16le_cp c =
     (if c < 0xD800 \<or> (0xE000 \<le> c \<and> c < 0x10000) then Inr (le_bytes 2 (int c))
      else if c < 0xE000 then Inl UnicodeEncodeError
      else Inr (le_bytes 2 (int (0xD800 + (c - 0x10000) div 0x400)) @
                le_bytes 2 (int (0xDC00 + (c - 0x10000) mod 0x400))))"

definition encode_utf16le :: "pystr \<Rightarrow> error + bytes" where
  "encode_utf16le s = cat (map utf16le_cp s)"

text \<open>\<^verbatim>\<open>str.encode("latin-1", errors="replace")\<close>: what is not Latin-1 becomes \<^verbatim>\<open>?\<close>.\<close>

definition encode_latin1_replace :: "pystr \<Rightarrow> bytes" where
  "encode_latin1_replace s = map (\<lambda>c. if c < 256 then word_of_nat c else 0x3F) s"

text \<open>\<^verbatim>\<open>xs[k] = v\<close>: a negative index counts from the end, out of range raises.\<close>

definition setitem :: "int list \<Rightarrow> int \<Rightarrow> int \<Rightarrow> error + int list" where
  "setitem xs k v =
     (let j = (if k < 0 then k + len xs else k)
      in if 0 \<le> j \<and> j < len xs then Inr (xs[nat j := v]) else Inl IndexError)"

section \<open>The OLE2 compound file writer\<close>

definition FREESECT :: int where "FREESECT = 0xFFFFFFFF"
definition ENDOFCHAIN :: int where "ENDOFCHAIN = 0xFFFFFFFE"
definition FATSECT :: int where "FATSECT = 0xFFFFFFFD"
definition NOSTREAM :: int where "NOSTREAM = 0xFFFFFFFF"
definition SECTOR :: int where "SECTOR = 512"

text \<open>
  \<^verbatim>\<open>_dir_entry(name, obj_type, start, size, child, left, right)\<close>; the keyword
  arguments default to \<open>NOSTREAM\<close> at the call sites.
\<close>

definition dir_entry ::
  "pystr \<Rightarrow> int \<Rightarrow> int \<Rightarrow> int \<Rightarrow> int \<Rightarrow> int \<Rightarrow> int \<Rightarrow> error + bytes" where
  "dir_entry name obj_type start size' child left right =
     (case encode_utf16le name of
        Inl x \<Rightarrow> Inl x
      | Inr name_u \<Rightarrow>
          (let name_len = len name_u + 2;
               name_field = ljust (name_u @ [0, 0]) 64 0
           in case cat [Inr name_field,
                        pack_H name_len,
                        pack_B obj_type,
                        pack_B 1,
                        pack_I left,
                        pack_I right,
                        pack_I child,
                        Inr (replicate 16 0),
                        pack_I 0,
                        pack_Q 0,
                        pack_Q 0,
                        pack_I start,
                        pack_I size',
                        pack_I 0] of
                Inl x \<Rightarrow> Inl x
              | Inr e \<Rightarrow> if len e = 128 then Inr e else Inl AssertionError))"

text \<open>\<^verbatim>\<open>max(1, -(-len(data) // SECTOR))\<close>, the number of sectors given to a payload.\<close>

definition nsectors :: "bytes \<Rightarrow> int" where
  "nsectors data = max 1 (- ((- len data) div SECTOR))"

text \<open>The first loop of \<^verbatim>\<open>build_ole2\<close>: the start sector of each stream, from \<open>cur\<close> on.\<close>

fun sector_starts :: "int \<Rightarrow> (pystr \<times> bytes) list \<Rightarrow> int list" where
  "sector_starts cur [] = []"
| "sector_starts cur ((name, data) # rest) = cur # sector_starts (cur + nsectors data) rest"

text \<open>The inner loop \<^verbatim>\<open>for j in range(n): fat[s + j] = ...\<close>, over the values of \<open>j\<close>.\<close>

fun chain_loop :: "int \<Rightarrow> int \<Rightarrow> nat list \<Rightarrow> int list \<Rightarrow> error + int list" where
  "chain_loop s n [] fat = Inr fat"
| "chain_loop s n (j # js) fat =
     (case setitem fat (s + int j) (if int j < n - 1 then s + int j + 1 else ENDOFCHAIN) of
        Inl x \<Rightarrow> Inl x
      | Inr fat' \<Rightarrow> chain_loop s n js fat')"

text \<open>
  The outer loop over \<^verbatim>\<open>enumerate(streams)\<close>; the second list carries
  \<^verbatim>\<open>sector_starts[i]\<close>, which has one element for each stream.
\<close>

fun fat_loop :: "(pystr \<times> bytes) list \<Rightarrow> int list \<Rightarrow> int list \<Rightarrow> error + int list" where
  "fat_loop ((name, data) # rest) (s # starts) fat =
     (case chain_loop s (nsectors data) [0 ..< nat (nsectors data)] fat of
        Inl x \<Rightarrow> Inl x
      | Inr fat' \<Rightarrow> fat_loop rest starts fat')"
| "fat_loop [] starts fat = Inr fat"
| "fat_loop rest [] fat = Inl IndexError"

definition fat_init :: "int list" where
  "fat_init = ((replicate 128 FREESECT)[0 := FATSECT, 1 := ENDOFCHAIN, 2 := ENDOFCHAIN])"

definition fat_table :: "(pystr \<times> bytes) list \<Rightarrow> error + int list" where
  "fat_table streams = fat_loop streams (sector_starts 3 streams) fat_init"

text \<open>
  The directory loop: \<open>i\<close> is the index of the next stream, \<open>n\<close> the number of
  streams, the second list the remaining start sectors.
\<close>

fun dir_loop :: "nat \<Rightarrow> nat \<Rightarrow> (pystr \<times> bytes) list \<Rightarrow> int list \<Rightarrow> (error + bytes) list" where
  "dir_loop i n ((name, data) # rest) (s # starts) =
     dir_entry name 2 s (len data) NOSTREAM NOSTREAM
       (if i + 1 < n then int i + 2 else NOSTREAM)
     # dir_loop (i + 1) n rest starts"
| "dir_loop i n [] starts = []"
| "dir_loop i n rest [] = [Inl IndexError]"

text \<open>\<^verbatim>\<open>while len(entries) < 4: entries.append(b"\x00" * 128)\<close>\<close>

function pad_entries :: "bytes list \<Rightarrow> bytes list" where
  "pad_entries entries =
     (if length entries < 4 then pad_entries (entries @ [replicate 128 0]) else entries)"
  by pat_completeness auto
termination
  by (relation "measure (\<lambda>entries. 4 - length entries)") auto

definition dir_sector :: "(pystr \<times> bytes) list \<Rightarrow> error + bytes" where
  "dir_sector streams =
     (let n = length streams
      in case collect
                (dir_entry (lit ''Root Entry'') 5 ENDOFCHAIN 0
                   (if n \<noteq> 0 then 1 else NOSTREAM) NOSTREAM NOSTREAM
                 # dir_loop 0 n streams (sector_starts 3 streams)) of
           Inl x \<Rightarrow> Inl x
         | Inr entries \<Rightarrow>
             (let d = concat (pad_entries entries)
              in if len d = SECTOR then Inr d else Inl AssertionError))"

definition magic :: bytes where
  "magic = [0xD0, 0xCF, 0x11, 0xE0, 0xA1, 0xB1, 0x1A, 0xE1]"

definition header :: "error + bytes" where
  "header =
     (case cat [Inr magic,
                Inr (replicate 16 0),
                pack_H 0x003E, pack_H 0x0003,
                pack_H 0xFFFE,
                pack_H 0x0009, pack_H 0x0006,
                Inr (replicate 6 0),
                pack_I 0,
                pack_I 1,
                pack_I 1,
                pack_I 0,
                pack_I 0x1000,
                pack_I 2,
                pack_I 1,
                pack_I ENDOFCHAIN,
                pack_I 0,
                pack_I 0,
                (case pack_I FREESECT of
                   Inl x \<Rightarrow> Inl x
                 | Inr b \<Rightarrow> Inr (concat (replicate 108 b)))] of
        Inl x \<Rightarrow> Inl x
      | Inr hdr \<Rightarrow> if len hdr = SECTOR then Inr hdr else Inl AssertionError)"

text \<open>One step of the body loop: the payload, zero-padded to the sector boundary.\<close>

definition pad_sector :: "bytes \<Rightarrow> bytes" where
  "pad_sector data =
     (let rem = len data mod SECTOR
      in data @ (if rem \<noteq> 0 then replicate (nat (SECTOR - rem)) 0 else []))"

fun body_loop :: "bytes \<Rightarrow> (pystr \<times> bytes) list \<Rightarrow> bytes" where
  "body_loop body [] = body"
| "body_loop body ((name, data) # rest) = body_loop (body @ pad_sector data) rest"

definition build_ole2 :: "(pystr \<times> bytes) list \<Rightarrow> error + bytes" where
  "build_ole2 streams =
     (case fat_table streams of
        Inl x \<Rightarrow> Inl x
      | Inr fat \<Rightarrow>
     (case pack_128I fat of
        Inl x \<Rightarrow> Inl x
      | Inr fat_sector \<Rightarrow>
     (case pack_128I (replicate 128 FREESECT) of
        Inl x \<Rightarrow> Inl x
      | Inr minifat_sector \<Rightarrow>
     (case dir_sector streams of
        Inl x \<Rightarrow> Inl x
      | Inr dir_sect \<Rightarrow>
     (case header of
        Inl x \<Rightarrow> Inl x
      | Inr hdr \<Rightarrow>
          Inr (hdr @ fat_sector @ dir_sect @ minifat_sector @ body_loop [] streams))))))"

section \<open>The SummaryInformation property set\<close>

definition VT_I4 :: int where "VT_I4 = 0x0003"
definition VT_LPSTR :: int where "VT_LPSTR = 0x001E"
definition SECTION_OFFSET :: int where "SECTION_OFFSET = 48"

definition FMTID_SUMMARY :: bytes where
  "FMTID_SUMMARY =
     [0xE0, 0x85, 0x9F, 0xF2,
      0xF9, 0x4F,
      0x68, 0x10,
      0xAB, 0x91, 0x08, 0x00, 0x2B, 0x27, 0xB3, 0xD9]"

text \<open>\<^verbatim>\<open>_prop_i4\<close> and \<^verbatim>\<open>_prop_str\<close> return the pair of the property ID and the encoded value.\<close>

definition prop_i4 :: "int \<Rightarrow> int \<Rightarrow> error + (int \<times> bytes)" where
  "prop_i4 pid val =
     (case cat [pack_H VT_I4, pack_i val] of
        Inl x \<Rightarrow> Inl x
      | Inr b \<Rightarrow> Inr (pid, b))"

definition prop_str :: "int \<Rightarrow> pystr \<Rightarrow> error + (int \<times> bytes)" where
  "prop_str pid txt =
     (let data = encode_latin1_replace txt @ [0];
          data = (if len data mod 4 \<noteq> 0
                  then data @ replicate (nat (4 - len data mod 4)) 0 else data)
      in case cat [pack_H VT_LPSTR, pack_I (len data), Inr data] of
           Inl x \<Rightarrow> Inl x
         | Inr b \<Rightarrow> Inr (pid, b))"

text \<open>
  The offset loop: returns the list \<^verbatim>\<open>offsets\<close> and the final value of \<^verbatim>\<open>off\<close>, which
  is aligned after every value, the last one included.
\<close>

fun offsets_loop :: "int \<Rightarrow> (int \<times> bytes) list \<Rightarrow> int list \<times> int" where
  "offsets_loop off [] = ([], off)"
| "offsets_loop off ((pid, val) # rest) =
     (case offsets_loop ((off + len val + 3) AND NOT 3) rest of
        (offsets, off') \<Rightarrow> (off # offsets, off'))"

text \<open>
  The value loop over \<^verbatim>\<open>enumerate(props)\<close>: every value but the last is followed by
  its alignment padding (\<open>i\<close> is the index, \<open>n\<close> is \<^verbatim>\<open>len(props)\<close>).
\<close>

fun values_loop :: "int \<Rightarrow> int \<Rightarrow> (int \<times> bytes) list \<Rightarrow> bytes" where
  "values_loop i n [] = []"
| "values_loop i n ((pid, val) # rest) =
     val @ (if i < n - 1 then replicate (nat ((4 - len val mod 4) mod 4)) 0 else [])
     @ values_loop (i + 1) n rest"

text \<open>The section \<^verbatim>\<open>prop_set\<close> of \<^verbatim>\<open>make_summary_stream\<close>, from the list \<^verbatim>\<open>props\<close>.\<close>

definition prop_set :: "(int \<times> bytes) list \<Rightarrow> error + bytes" where
  "prop_set props =
     (let id_offset_size = 8 * len props;
          header_size = 8 + id_offset_size
      in case offsets_loop header_size props of
           (offsets, off) \<Rightarrow>
             cat ([pack_I off, pack_I (len props)]
                  @ map (\<lambda>((pid, val), o'). cat [pack_I pid, pack_I o']) (zip props offsets)
                  @ [Inr (values_loop 0 (len props) props)]))"

text \<open>The 48-byte stream header, with its length assertion.\<close>

definition stream_header :: "error + bytes" where
  "stream_header =
     (case cat [pack_H 0xFFFE, pack_H 0x0000,
                pack_I 0x00020006,
                Inr (replicate 16 0),
                pack_I 1,
                Inr FMTID_SUMMARY,
                pack_I SECTION_OFFSET] of
        Inl x \<Rightarrow> Inl x
      | Inr stream \<Rightarrow> if len stream = SECTION_OFFSET then Inr stream else Inl AssertionError)"

text \<open>The list \<^verbatim>\<open>props\<close>: a string property only for a non-empty string.\<close>

definition summary_props :: "int \<Rightarrow> pystr \<Rightarrow> pystr \<Rightarrow> error + (int \<times> bytes) list" where
  "summary_props page_count title author =
     collect ((if title \<noteq> [] then [prop_str 0x02 title] else [])
              @ (if author \<noteq> [] then [prop_str 0x04 author] else [])
              @ [prop_i4 0x0E page_count])"

definition make_summary_stream :: "int \<Rightarrow> pystr \<Rightarrow> pystr \<Rightarrow> error + bytes" where
  "make_summary_stream page_count title author =
     (case summary_props page_count title author of
        Inl x \<Rightarrow> Inl x
      | Inr props \<Rightarrow>
     (case prop_set props of
        Inl x \<Rightarrow> Inl x
      | Inr section_bytes \<Rightarrow>
     (case stream_header of
        Inl x \<Rightarrow> Inl x
      | Inr stream \<Rightarrow> Inr (stream @ section_bytes))))"

text \<open>
  \<^verbatim>\<open>make_doc_10page\<close>, up to the image it writes to the fixture file: the summary
  stream is left-justified to 4096 bytes before \<^verbatim>\<open>build_ole2\<close> is called.
\<close>

definition make_doc_10page :: "error + bytes" where
  "make_doc_10page =
     (case make_summary_stream 10 (lit ''Legacy Word Test'') (lit ''DocReader Tests'') of
        Inl x \<Rightarrow> Inl x
      | Inr summary \<Rightarrow>
          build_ole2 [(5 # lit ''SummaryInformation'', ljust summary 4096 0)])"

section \<open>Reading an image back\<close>

text \<open>
  The claims speak of fields of the emitted bytes. These functions read them: a
  little-endian unsigned value, a 512-byte sector of the image (sector \<open>k\<close> follows the
  header, at byte \<open>512 * (k + 1)\<close>), an entry of the FAT in sector 0, of the mini-FAT
  in sector 2, and a 128-byte directory entry of sector 1.
\<close>

fun le_val :: "bytes \<Rightarrow> nat" where
  "le_val [] = 0"
| "le_val (b # bs) = unat b + 256 * le_val bs"

definition u16_at :: "bytes \<Rightarrow> nat \<Rightarrow> nat" where
  "u16_at bs off = le_val (take 2 (drop off bs))"

definition u32_at :: "bytes \<Rightarrow> nat \<Rightarrow> nat" where
  "u32_at bs off = le_val (take 4 (drop off bs))"

definition sector_of :: "bytes \<Rightarrow> nat \<Rightarrow> bytes" where
  "sector_of img k = take 512 (drop (512 * (k + 1)) img)"

definition fat_entry :: "bytes \<Rightarrow> nat \<Rightarrow> nat" where
  "fat_entry img k = u32_at (sector_of img 0) (4 * k)"

definition minifat_entry :: "bytes \<Rightarrow> nat \<Rightarrow> nat" where
  "minifat_entry img k = u32_at (sector_of img 2) (4 * k)"

definition dir_entry_of :: "bytes \<Rightarrow> nat \<Rightarrow> bytes" where
  "dir_entry_of img k = take 128 (drop (128 * k) (sector_of img 1))"

text \<open>The number of UTF-16 code units of a name, and the names that can be encoded.\<close>

definition utf16_units :: "pystr \<Rightarrow> nat" where
  "utf16_units name = sum_list (map (\<lambda>c. if c < 0x10000 then 1 else 2) name)"

definition encodable :: "pystr \<Rightarrow> bool" where
  "encodable name = list_all (\<lambda>c. \<not> (0xD800 \<le> c \<and> c < 0xE000)) name"

text \<open>
  The capacity of the single FAT sector and the single directory sector: at most three
  streams, at most 125 data sectors, names of encodable text of at most 31 code units.
\<close>

definition total_sectors :: "(pystr \<times> bytes) list \<Rightarrow> int" where
  "total_sectors streams = 3 + sum_list (map (\<lambda>(name, data). nsectors data) streams)"

definition within_capacity :: "(pystr \<times> bytes) list \<Rightarrow> bool" where
  "within_capacity streams \<longleftrightarrow>
     length streams \<le> 3 \<and> total_sectors streams \<le> 128 \<and>
     list_all (\<lambda>(name, data). encodable name \<and> utf16_units name \<le> 31) streams"

section \<open>Closed forms used in the proofs\<close>

text \<open>
  The sum of the sector counts of the streams, the byte layout of a directory entry
  whose fields all fit their formats, and the four entries of the directory sector.
\<close>

definition sum_sectors :: "(pystr \<times> bytes) list \<Rightarrow> int" where
  "sum_sectors streams = sum_list (map (\<lambda>(name, data). nsectors data) streams)"

definition entry_layout :: "bytes \<Rightarrow> int \<Rightarrow> int \<Rightarrow> int \<Rightarrow> int \<Rightarrow> int \<Rightarrow> int \<Rightarrow> bytes" where
  "entry_layout name_u obj_type start size' child left right =
     ljust (name_u @ [0, 0]) 64 0 @ le_bytes 2 (len name_u + 2) @ le_bytes 1 obj_type @ le_bytes 1 1
     @ le_bytes 4 left @ le_bytes 4 right @ le_bytes 4 child @ replicate 16 0
     @ le_bytes 4 0 @ le_bytes 8 0 @ le_bytes 8 0
     @ le_bytes 4 start @ le_bytes 4 size' @ le_bytes 4 0"

fun dir_layouts :: "nat \<Rightarrow> nat \<Rightarrow> (pystr \<times> bytes) list \<Rightarrow> int list \<Rightarrow> bytes list" where
  "dir_layouts i n ((name, data) # rest) (s # starts) =
     entry_layout (projr (encode_utf16le name)) 2 s (len data) NOSTREAM NOSTREAM
       (if i + 1 < n then int i + 2 else NOSTREAM)
     # dir_layouts (i + 1) n rest starts"
| "dir_layouts i n [] starts = []"
| "dir_layouts i n rest [] = []"

definition root_layout :: "nat \<Rightarrow> bytes" where
  "root_layout n =
     entry_layout (projr (encode_utf16le (lit ''Root Entry''))) 5 ENDOFCHAIN 0
       (if n \<noteq> 0 then 1 else NOSTREAM) NOSTREAM NOSTREAM"

definition dir_bytes :: "(pystr \<times> bytes) list \<Rightarrow> bytes list" where
  "dir_bytes streams =
     root_layout (length streams)
     # dir_layouts 0 (length streams) streams (sector_starts 3 streams)
     @ replicate (3 - length streams) (replicate 128 0)"

definition header_bytes :: bytes where
  "header_bytes =
     magic @ replicate 16 0 @ le_bytes 2 0x3E @ le_bytes 2 3 @ le_bytes 2 0xFFFE
     @ le_bytes 2 9 @ le_bytes 2 6 @ replicate 6 0
     @ le_bytes 4 0 @ le_bytes 4 1 @ le_bytes 4 1 @ le_bytes 4 0 @ le_bytes 4 0x1000
     @ le_bytes 4 2 @ le_bytes 4 1 @ le_bytes 4 ENDOFCHAIN @ le_bytes 4 0 @ le_bytes 4 0
     @ concat (replicate 108 (le_bytes 4 FREESECT))"

definition minifat_bytes :: bytes where
  "minifat_bytes = concat (map (le_bytes 4) (replicate 128 FREESECT))"

text \<open>The single-stream input of the specification's example: 4096 zero bytes.\<close>

definition ppt_streams :: "(pystr \<times> bytes) list" where
  "ppt_streams = [(lit ''PowerPoint Document'', replicate 4096 0)]"

text \<open>
  Following a chain of the FAT from sector \<open>s\<close>, as a reader does: the sectors visited
  up to the entry that holds \<open>ENDOFCHAIN\<close>; \<open>None\<close> when the fuel runs out first.
\<close>

fun fat_chain :: "bytes \<Rightarrow> nat \<Rightarrow> nat \<Rightarrow> nat list option" where
  "fat_chain img 0 s = None"
| "fat_chain img (Suc fuel) s =
     (if int (fat_entry img s) = ENDOFCHAIN then Some [s]
      else map_option ((#) s) (fat_chain img fuel (fat_entry img s)))"

text \<open>
  The fields of a 128-byte directory entry, at the offsets \<^verbatim>\<open>_dir_entry\<close> writes them:
  name (0), name length (64), object type (66), colour (67), left (68), right (72),
  child (76), start sector (116), size (120).
\<close>

definition entry_name :: "bytes \<Rightarrow> bytes" where "entry_name e = take 64 e"
definition entry_name_len :: "bytes \<Rightarrow> nat" where "entry_name_len e = u16_at e 64"
definition entry_type :: "bytes \<Rightarrow> nat" where "entry_type e = unat (e ! 66)"
definition entry_left :: "bytes \<Rightarrow> nat" where "entry_left e = u32_at e 68"
definition entry_right :: "bytes \<Rightarrow> nat" where "entry_right e = u32_at e 72"
definition entry_child :: "bytes \<Rightarrow> nat" where "entry_child e = u32_at e 76"
definition entry_start :: "bytes \<Rightarrow> nat" where "entry_start e = u32_at e 116"
definition entry_size :: "bytes \<Rightarrow> nat" where "entry_size e = u32_at e 120"

text \<open>A two-stream input with one-byte payloads.\<close>

definition two_streams :: "(pystr \<times> bytes) list" where
  "two_streams = [(lit ''A'', [1]), (lit ''B'', [2])]"

text \<open>
  Reading a summary stream back: the section starts at byte 48; its first word is the
  declared size, its second the number of properties, followed by one (ID, offset)
  pair for each property.
\<close>

definition section_size :: "bytes \<Rightarrow> nat" where
  "section_size stream = u32_at stream 48"

definition section_count :: "bytes \<Rightarrow> nat" where
  "section_count stream = u32_at stream (48 + 4)"

definition section_ids :: "bytes \<Rightarrow> nat list" where
  "section_ids stream = map (\<lambda>k. u32_at stream (48 + 8 + 8 * k)) [0 ..< section_count stream]"

definition section_bytes :: "bytes \<Rightarrow> bytes" where
  "section_bytes stream = drop 48 stream"

text \<open>The packed (ID, offset) pairs of a section.\<close>

definition id_offset_pairs :: "((int \<times> bytes) \<times> int) list \<Rightarrow> bytes" where
  "id_offset_pairs zs = concat (map (\<lambda>((pid, val), o'). le_bytes 4 pid @ le_bytes 4 o') zs)"

definition stream_header_bytes :: bytes where
  "stream_header_bytes =
     le_bytes 2 0xFFFE @ le_bytes 2 0 @ le_bytes 4 0x00020006 @ replicate 16 0 @ le_bytes 4 1
     @ FMTID_SUMMARY @ le_bytes 4 48"

text \<open>
  Reading the properties of a section back: the offsets listed in the ID/offset table, a
  signed 32-bit little-endian value, and what a reader must find at a listed offset for
  a \<open>VT_I4\<close> property (type tag 3, then the value) and for a \<open>VT_LPSTR\<close> property
  (type tag \<open>0x1E\<close>, the byte count, the Latin-1 text, then zero bytes up to the count,
  which is the text length plus one rounded up to a multiple of 4), the whole value
  lying inside the section.
\<close>

definition section_offsets :: "bytes \<Rightarrow> nat list" where
  "section_offsets stream =
     map (\<lambda>k. u32_at stream (48 + 8 + 8 * k + 4)) [0 ..< section_count stream]"

definition i32_at :: "bytes \<Rightarrow> nat \<Rightarrow> int" where
  "i32_at bs off =
     (let u = int (u32_at bs off) in if u < 2 ^ 31 then u else u - 2 ^ 32)"

definition i4_property_at :: "bytes \<Rightarrow> nat \<Rightarrow> int \<Rightarrow> bool" where
  "i4_property_at sec off v \<longleftrightarrow>
     off + 6 \<le> length sec \<and> u16_at sec off = 3 \<and> i32_at sec (off + 2) = v"

definition lpstr_property_at :: "bytes \<Rightarrow> nat \<Rightarrow> pystr \<Rightarrow> bool" where
  "lpstr_property_at sec off txt \<longleftrightarrow>
     (let c = 4 * ((length txt + 4) div 4)
      in off + 6 + c \<le> length sec \<and> u16_at sec off = 0x1E \<and> u32_at sec (off + 2) = c \<and>
         take (length txt) (drop (off + 6) sec) = encode_latin1_replace txt \<and>
         take (c - length txt) (drop (off + 6 + length txt) sec) =
           replicate (c - length txt) 0)"

text \<open>The padded data of \<^verbatim>\<open>_prop_str\<close>, and the two encoded values.\<close>

definition lpstr_data :: "pystr \<Rightarrow> bytes" where
  "lpstr_data txt =
     (let data = encode_latin1_replace txt @ [0]
      in if len data mod 4 \<noteq> 0
         then data @ replicate (nat (4 - len data mod 4)) 0 else data)"

definition lpstr_value :: "pystr \<Rightarrow> bytes" where
  "lpstr_value txt = le_bytes 2 VT_LPSTR @ le_bytes 4 (len (lpstr_data txt)) @ lpstr_data txt"

definition i4_value :: "int \<Rightarrow> bytes" where
  "i4_value v = le_bytes 2 VT_I4 @ le_bytes 4 v"

declare pad_entries.simps [simp del]

section \<open>Bytes and packing\<close>

lemma length_le_bytes [simp]: "length (le_bytes n v) = n"
  by (induction n arbitrary: v) auto

lemma le_bytes_numeral:
  "le_bytes 1 v = [word_of_int v]"
  "le_bytes 2 v = [word_of_int v, word_of_int (v div 256)]"
  by (simp_all add: eval_nat_numeral)

lemma le_val_le_bytes: "0 \<le> v \<Longrightarrow> v < 256 ^ n \<Longrightarrow> int (le_val (le_bytes n v)) = v"
proof (induction n arbitrary: v)
  case 0
  then show ?case by simp
next
  case (Suc n)
  define m :: int where "m = 256 ^ n"
  have "v < 256 * m" using Suc.prems by (simp add: m_def)
  then have "v div 256 < m" by arith
  then have d: "0 \<le> v div 256" "v div 256 < 256 ^ n"
    using Suc.prems by (simp_all add: m_def)
  have "int (unat (word_of_int v :: 8 word)) = v mod 256"
    by (simp add: unat_eq_nat_uint uint_word_of_int take_bit_eq_mod)
  with Suc.IH [OF d] show ?case by simp
qed

lemma cat_Inr: "cat (map Inr bs) = Inr (concat bs)"
  by (induction bs) auto

lemma cat_append:
  "cat (xs @ ys) =
     (case cat xs of Inl e \<Rightarrow> Inl e
      | Inr a \<Rightarrow> (case cat ys of Inl e \<Rightarrow> Inl e | Inr b \<Rightarrow> Inr (a @ b)))"
  by (induction xs) (auto split: sum.splits)

lemma cat_pack_I:
  "\<forall>x\<in>set xs. 0 \<le> x \<and> x < 2 ^ 32 \<Longrightarrow> cat (map pack_I xs) = Inr (concat (map (le_bytes 4) xs))"
  by (induction xs) (auto simp: pack_I_def)

lemma take_drop_concat_le4:
  "k < length xs \<Longrightarrow> take 4 (drop (4 * k) (concat (map (le_bytes 4) xs))) = le_bytes 4 (xs ! k)"
proof (induction xs arbitrary: k)
  case Nil
  then show ?case by simp
next
  case (Cons x xs)
  show ?case
  proof (cases k)
    case 0
    then show ?thesis by simp
  next
    case (Suc k')
    with Cons.prems have "k' < length xs" by simp
    from Cons.IH [OF this] Suc show ?thesis by simp
  qed
qed

lemma u32_at_concat_le4:
  assumes "k < length xs" "0 \<le> xs ! k" "xs ! k < 2 ^ 32"
  shows "int (u32_at (concat (map (le_bytes 4) xs)) (4 * k)) = xs ! k"
  unfolding u32_at_def take_drop_concat_le4 [OF assms(1)]
  using le_val_le_bytes [of "xs ! k" 4] assms by simp

lemma length_concat_le4 [simp]: "length (concat (map (le_bytes 4) xs)) = 4 * length xs"
  by (induction xs) auto

section \<open>The FAT loops\<close>

lemma nsectors_pos: "1 \<le> nsectors d"
  by (simp add: nsectors_def)

lemma setitem_ok: "0 \<le> k \<Longrightarrow> k < len xs \<Longrightarrow> setitem xs k v = Inr (xs[nat k := v])"
  by (simp add: setitem_def Let_def)

lemma chain_loop_ok:
  assumes "0 \<le> s" "\<forall>j\<in>set js. s + int j < len fat"
  shows "\<exists>fat'. chain_loop s n js fat = Inr fat' \<and> length fat' = length fat \<and>
     (\<forall>k<length fat. fat' ! k =
        (if s \<le> int k \<and> nat (int k - s) \<in> set js
         then (if int k - s < n - 1 then int k + 1 else ENDOFCHAIN) else fat ! k))"
  using assms
proof (induction js arbitrary: fat)
  case Nil
  then show ?case by simp
next
  case (Cons j js)
  let ?v = "if int j < n - 1 then s + int j + 1 else ENDOFCHAIN"
  let ?fat1 = "fat[nat (s + int j) := ?v]"
  have s1: "setitem fat (s + int j) ?v = Inr ?fat1"
    using Cons.prems by (intro setitem_ok) auto
  have "\<forall>j\<in>set js. s + int j < len ?fat1"
    using Cons.prems by (simp add: len_def)
  from Cons.IH [OF Cons.prems(1) this] obtain fat' where
    f: "chain_loop s n js ?fat1 = Inr fat'" "length fat' = length fat"
       "\<forall>k<length fat. fat' ! k =
        (if s \<le> int k \<and> nat (int k - s) \<in> set js
         then (if int k - s < n - 1 then int k + 1 else ENDOFCHAIN) else ?fat1 ! k)"
    by auto
  have "chain_loop s n (j # js) fat = Inr fat'"
    using s1 f(1) by simp
  moreover have "\<forall>k<length fat. fat' ! k =
        (if s \<le> int k \<and> nat (int k - s) \<in> set (j # js)
         then (if int k - s < n - 1 then int k + 1 else ENDOFCHAIN) else fat ! k)"
  proof (intro allI impI)
    fix k assume k: "k < length fat"
    show "fat' ! k =
        (if s \<le> int k \<and> nat (int k - s) \<in> set (j # js)
         then (if int k - s < n - 1 then int k + 1 else ENDOFCHAIN) else fat ! k)"
    proof (cases "k = nat (s + int j)")
      case True
      then have e: "int k - s = int j" "s \<le> int k" using Cons.prems(1) by auto
      show ?thesis using f(3) k True e Cons.prems(1)
        by (auto simp: nth_list_update)
    next
      case False
      then have "\<not> (s \<le> int k \<and> nat (int k - s) = j)" by auto
      then show ?thesis using f(3) k False
        by (auto simp: nth_list_update)
    qed
  qed
  ultimately show ?case using f(2) by blast
qed


lemma chain_loop_range:
  "chain_loop s n js fat = Inr fat' \<Longrightarrow> 0 \<le> s \<Longrightarrow> len fat < 2 ^ 32 \<Longrightarrow>
   \<forall>x\<in>set fat. 0 \<le> x \<and> x < 2 ^ 32 \<Longrightarrow> \<forall>x\<in>set fat'. 0 \<le> x \<and> x < 2 ^ 32"
proof (induction js arbitrary: fat)
  case Nil
  then show ?case by simp
next
  case (Cons j js)
  let ?v = "if int j < n - 1 then s + int j + 1 else ENDOFCHAIN"
  from Cons.prems(1) obtain fat1 where
    s1: "setitem fat (s + int j) ?v = Inr fat1" and c: "chain_loop s n js fat1 = Inr fat'"
    by (auto split: sum.splits)
  from s1 Cons.prems(2) have lt: "s + int j < len fat" and f1: "fat1 = fat[nat (s + int j) := ?v]"
    by (auto simp: setitem_def Let_def split: if_splits)
  have v: "0 \<le> ?v \<and> ?v < 2 ^ 32"
    using lt Cons.prems(2,3) by (auto simp: ENDOFCHAIN_def)
  have "\<forall>x\<in>set fat1. 0 \<le> x \<and> x < 2 ^ 32"
  proof
    fix x assume "x \<in> set fat1"
    then have "x \<in> insert ?v (set fat)"
      unfolding f1 using set_update_subset_insert by fastforce
    then show "0 \<le> x \<and> x < 2 ^ 32" using v Cons.prems(4) by auto
  qed
  moreover have "len fat1 < 2 ^ 32" using Cons.prems(3) f1 by (simp add: len_def)
  ultimately show ?case using Cons.IH [OF c Cons.prems(2)] by blast
qed

lemma sum_sectors_simps [simp]:
  "sum_sectors [] = 0"
  "sum_sectors ((name, data) # rest) = nsectors data + sum_sectors rest"
  by (simp_all add: sum_sectors_def)

lemma sum_sectors_nonneg: "0 \<le> sum_sectors streams"
  using nsectors_pos by (induction streams) (auto simp add: add_nonneg_nonneg order_trans [OF zero_le_one])

lemma length_sector_starts [simp]: "length (sector_starts cur streams) = length streams"
  by (induction cur streams rule: sector_starts.induct) auto

lemma sector_starts_bounds:
  "i < length streams \<Longrightarrow>
   cur \<le> sector_starts cur streams ! i \<and>
   sector_starts cur streams ! i + nsectors (snd (streams ! i)) \<le> cur + sum_sectors streams"
proof (induction cur streams arbitrary: i rule: sector_starts.induct)
  case (1 cur)
  then show ?case by simp
next
  case (2 cur name data rest)
  show ?case
  proof (cases i)
    case 0
    then show ?thesis using sum_sectors_nonneg [of rest] by simp
  next
    case (Suc i')
    with "2.prems" have "i' < length rest" by simp
    from "2.IH" [OF this] Suc nsectors_pos [of data] show ?thesis by simp
  qed
qed

lemma fat_loop_ok:
  assumes "0 \<le> cur" "cur + sum_sectors streams \<le> len fat"
  shows "\<exists>fat'. fat_loop streams (sector_starts cur streams) fat = Inr fat' \<and>
     length fat' = length fat \<and>
     (\<forall>k<length fat. int k < cur \<or> cur + sum_sectors streams \<le> int k \<longrightarrow> fat' ! k = fat ! k) \<and>
     (\<forall>i<length streams. \<forall>j. 0 \<le> j \<and> j < nsectors (snd (streams ! i)) \<longrightarrow>
        fat' ! nat (sector_starts cur streams ! i + j) =
          (if j < nsectors (snd (streams ! i)) - 1
           then sector_starts cur streams ! i + j + 1 else ENDOFCHAIN))"
  using assms
proof (induction cur streams arbitrary: fat rule: sector_starts.induct)
  case (1 cur)
  then show ?case by simp
next
  case (2 cur name data rest)
  let ?n = "nsectors data"
  have n1: "1 \<le> ?n" by (rule nsectors_pos)
  have r0: "0 \<le> sum_sectors rest" by (rule sum_sectors_nonneg)
  have "\<forall>j\<in>set [0..<nat ?n]. cur + int j < len fat"
    using "2.prems" r0 by auto
  from chain_loop_ok [OF "2.prems"(1) this, of ?n] obtain fat1 where
    c: "chain_loop cur ?n [0..<nat ?n] fat = Inr fat1" "length fat1 = length fat"
       "\<forall>k<length fat. fat1 ! k =
        (if cur \<le> int k \<and> nat (int k - cur) \<in> set [0..<nat ?n]
         then (if int k - cur < ?n - 1 then int k + 1 else ENDOFCHAIN) else fat ! k)"
    by blast
  have p: "0 \<le> cur + ?n" "cur + ?n + sum_sectors rest \<le> len fat1"
    using "2.prems" n1 c(2) by (auto simp: len_def)
  from "2.IH" [OF p] obtain fat' where
    f: "fat_loop rest (sector_starts (cur + ?n) rest) fat1 = Inr fat'"
       "length fat' = length fat1"
       "\<forall>k<length fat1. int k < cur + ?n \<or> cur + ?n + sum_sectors rest \<le> int k \<longrightarrow> fat' ! k = fat1 ! k"
       "\<forall>i<length rest. \<forall>j. 0 \<le> j \<and> j < nsectors (snd (rest ! i)) \<longrightarrow>
        fat' ! nat (sector_starts (cur + ?n) rest ! i + j) =
          (if j < nsectors (snd (rest ! i)) - 1
           then sector_starts (cur + ?n) rest ! i + j + 1 else ENDOFCHAIN)"
    by blast
  have A: "fat_loop ((name, data) # rest) (sector_starts cur ((name, data) # rest)) fat = Inr fat'"
    using c(1) f(1) by simp
  have B: "\<forall>k<length fat. int k < cur \<or> cur + sum_sectors ((name, data) # rest) \<le> int k
             \<longrightarrow> fat' ! k = fat ! k"
  proof (intro allI impI)
    fix k assume k: "k < length fat"
      and o: "int k < cur \<or> cur + sum_sectors ((name, data) # rest) \<le> int k"
    have "fat' ! k = fat1 ! k" using f(3) k c(2) o n1 r0 by auto
    also have "fat1 ! k = fat ! k" using c(3) k o r0 by auto
    finally show "fat' ! k = fat ! k" .
  qed
  have C: "\<forall>i<length ((name, data) # rest). \<forall>j. 0 \<le> j \<and> j < nsectors (snd (((name, data) # rest) ! i)) \<longrightarrow>
        fat' ! nat (sector_starts cur ((name, data) # rest) ! i + j) =
          (if j < nsectors (snd (((name, data) # rest) ! i)) - 1
           then sector_starts cur ((name, data) # rest) ! i + j + 1 else ENDOFCHAIN)"
  proof (intro allI impI)
    fix i j
    assume i: "i < length ((name, data) # rest)"
      and j: "0 \<le> j \<and> j < nsectors (snd (((name, data) # rest) ! i))"
    show "fat' ! nat (sector_starts cur ((name, data) # rest) ! i + j) =
          (if j < nsectors (snd (((name, data) # rest) ! i)) - 1
           then sector_starts cur ((name, data) # rest) ! i + j + 1 else ENDOFCHAIN)"
    proof (cases i)
      case 0
      with j have j': "0 \<le> j" "j < ?n" by auto
      let ?k = "nat (cur + j)"
      have k: "?k < length fat" "int ?k < cur + ?n" "int ?k = cur + j"
        using j' "2.prems" r0 by (auto simp: len_def)
      have "fat' ! ?k = fat1 ! ?k" using f(3) k c(2) by auto
      also have "fat1 ! ?k = (if j < ?n - 1 then cur + j + 1 else ENDOFCHAIN)"
        using c(3) k j' "2.prems"(1) by auto
      finally show ?thesis using 0 by simp
    next
      case (Suc i')
      with i j have "i' < length rest" "0 \<le> j \<and> j < nsectors (snd (rest ! i'))" by auto
      with f(4) Suc show ?thesis by simp
    qed
  qed
  from A B C c(2) f(2) show ?case by (intro exI [of _ fat']) (simp only: simp_thms)
qed

section \<open>Directory entries\<close>

lemma utf16le_cp_ok:
  "\<not> (0xD800 \<le> c \<and> c < 0xE000) \<Longrightarrow>
   \<exists>b. utf16le_cp c = Inr b \<and> length b = 2 * (if c < 0x10000 then 1 else 2)"
  by (auto simp: utf16le_cp_def)

lemma encode_utf16le_ok:
  "encodable name \<Longrightarrow>
   \<exists>u. encode_utf16le name = Inr u \<and> length u = 2 * utf16_units name"
proof (induction name)
  case Nil
  then show ?case by (simp add: encode_utf16le_def utf16_units_def)
next
  case (Cons c name)
  then have "\<not> (0xD800 \<le> c \<and> c < 0xE000)" "encodable name"
    by (simp_all add: encodable_def)
  from utf16le_cp_ok [OF this(1)] Cons.IH [OF this(2)] show ?case
    by (auto simp: encode_utf16le_def utf16_units_def)
qed

lemma length_ljust: "length (ljust b w f) = max (length b) w"
  by (simp add: ljust_def)

lemma length_entry_layout:
  "length u \<le> 62 \<Longrightarrow> length (entry_layout u t st sz c l r) = 128"
  by (simp add: entry_layout_def length_ljust)

lemma dir_entry_eq:
  assumes "encodable name" "utf16_units name \<le> 31"
    "0 \<le> t" "t < 2 ^ 8" "0 \<le> st" "st < 2 ^ 32" "0 \<le> sz" "sz < 2 ^ 32"
    "0 \<le> c" "c < 2 ^ 32" "0 \<le> l" "l < 2 ^ 32" "0 \<le> r" "r < 2 ^ 32"
  shows "dir_entry name t st sz c l r =
           Inr (entry_layout (projr (encode_utf16le name)) t st sz c l r)"
proof -
  from encode_utf16le_ok [OF assms(1)] obtain u where
    u: "encode_utf16le name = Inr u" "length u = 2 * utf16_units name" by blast
  with assms(2) have lu: "length u \<le> 62" by simp
  have "len (entry_layout u t st sz c l r) = 128"
    using length_entry_layout [OF lu] by (simp add: len_def)
  then show ?thesis
    using u(1) assms lu
    by (simp add: dir_entry_def Let_def entry_layout_def pack_H_def pack_B_def pack_I_def
        pack_Q_def len_def)
qed

lemma utf16le_cp_cases:
  "utf16le_cp c = Inl UnicodeEncodeError \<or>
   (\<exists>b. utf16le_cp c = Inr b \<and> length b = 2 * (if c < 0x10000 then 1 else 2))"
  by (auto simp: utf16le_cp_def)

lemma encode_utf16le_cases:
  "encode_utf16le name = Inl UnicodeEncodeError \<or>
   (\<exists>u. encode_utf16le name = Inr u \<and> length u = 2 * utf16_units name)"
proof (induction name)
  case Nil
  then show ?case by (simp add: encode_utf16le_def utf16_units_def)
next
  case (Cons c name)
  from utf16le_cp_cases [of c] Cons.IH show ?case
    by (auto simp: encode_utf16le_def utf16_units_def)
qed

lemma cat_struct_cases:
  "list_all2 (\<lambda>r n. r = Inl StructError \<or> (\<exists>b. r = Inr b \<and> length b = n)) rs ns \<Longrightarrow>
   cat rs = Inl StructError \<or> (\<exists>e. cat rs = Inr e \<and> length e = sum_list ns)"
  by (induction rule: list_all2_induct) auto

lemma pack_cases:
  "pack_B v = Inl StructError \<or> (\<exists>b. pack_B v = Inr b \<and> length b = Suc 0)"
  "pack_H v = Inl StructError \<or> (\<exists>b. pack_H v = Inr b \<and> length b = 2)"
  "pack_I v = Inl StructError \<or> (\<exists>b. pack_I v = Inr b \<and> length b = 4)"
  "pack_Q v = Inl StructError \<or> (\<exists>b. pack_Q v = Inr b \<and> length b = 8)"
  by (simp_all add: pack_B_def pack_H_def pack_I_def pack_Q_def)

lemma dir_entry_cases:
  assumes "utf16_units name \<le> 31"
  shows "dir_entry name t st sz c l r = Inl UnicodeEncodeError \<or>
         dir_entry name t st sz c l r = Inl StructError \<or>
         (\<exists>e. dir_entry name t st sz c l r = Inr e \<and> length e = 128)"
proof -
  from encode_utf16le_cases [of name]
  consider "encode_utf16le name = Inl UnicodeEncodeError"
    | u where "encode_utf16le name = Inr u" "length u = 2 * utf16_units name" by blast
  then show ?thesis
  proof cases
    case 1
    then show ?thesis by (simp add: dir_entry_def)
  next
    case 2
    with assms have lu: "length u \<le> 62" by simp
    let ?rs = "[Inr (ljust (u @ [0, 0]) 64 0), pack_H (len u + 2), pack_B t, pack_B 1,
                pack_I l, pack_I r, pack_I c, Inr (replicate 16 0), pack_I 0, pack_Q 0,
                pack_Q 0, pack_I st, pack_I sz, pack_I 0]"
    have "list_all2 (\<lambda>r n. r = Inl StructError \<or> (\<exists>b. r = Inr b \<and> length b = n)) ?rs
            [64, 2, 1, 1, 4, 4, 4, 16, 4, 8, 8, 4, 4, 4]"
      using lu by (simp add: pack_cases length_ljust)
    from cat_struct_cases [OF this]
    have "cat ?rs = Inl StructError \<or> (\<exists>e. cat ?rs = Inr e \<and> length e = 128)"
      by simp
    then show ?thesis
      using 2(1) by (auto simp: dir_entry_def Let_def len_def)
  qed
qed

lemma pad_entries_eq:
  "pad_entries es = es @ replicate (4 - length es) (replicate 128 0)"
proof (induction es rule: pad_entries.induct)
  case (1 entries)
  show ?case
  proof (cases "length entries < 4")
    case True
    then have "pad_entries entries = pad_entries (entries @ [replicate 128 0])"
      by (subst pad_entries.simps) simp
    also have "\<dots> = (entries @ [replicate 128 0]) @
        replicate (4 - length (entries @ [replicate 128 0])) (replicate 128 0)"
      using "1.IH" [OF True] .
    also have "\<dots> = entries @ replicate (Suc (4 - length (entries @ [replicate 128 0]))) (replicate 128 0)"
      by (simp add: replicate_app_Cons_same)
    also have "Suc (4 - length (entries @ [replicate 128 0])) = 4 - length entries"
      using True by simp
    finally show ?thesis .
  next
    case False
    then show ?thesis by (subst pad_entries.simps) simp
  qed
qed

lemma dir_loop_collect:
  assumes "list_all (\<lambda>(name, data). encodable name \<and> utf16_units name \<le> 31 \<and> len data < 2 ^ 32) streams"
    "list_all (\<lambda>s. 0 \<le> s \<and> s < 2 ^ 32) starts" "length starts = length streams"
    "n < 2 ^ 31"
  shows "collect (dir_loop i n streams starts) = Inr (dir_layouts i n streams starts)"
  using assms
proof (induction i n streams starts rule: dir_loop.induct)
  case (1 i n name data rest s starts)
  have r: "0 \<le> (if i + 1 < n then int i + 2 else NOSTREAM)"
          "(if i + 1 < n then int i + 2 else NOSTREAM) < 2 ^ 32"
    using "1.prems"(4) by (auto simp: NOSTREAM_def)
  have e: "dir_entry name 2 s (len data) NOSTREAM NOSTREAM
             (if i + 1 < n then int i + 2 else NOSTREAM) =
           Inr (entry_layout (projr (encode_utf16le name)) 2 s (len data) NOSTREAM NOSTREAM
             (if i + 1 < n then int i + 2 else NOSTREAM))"
    using "1.prems" r by (intro dir_entry_eq) (auto simp: NOSTREAM_def len_def)
  have "collect (dir_loop (i + 1) n rest starts) = Inr (dir_layouts (i + 1) n rest starts)"
    using "1.prems" by (intro "1.IH") auto
  with e show ?case by simp
next
  case (2 i n starts)
  then show ?case by simp
next
  case (3 i n v va)
  then show ?case by simp
qed

lemma length_dir_layouts:
  "length starts = length streams \<Longrightarrow> length (dir_layouts i n streams starts) = length streams"
  by (induction i n streams starts rule: dir_layouts.induct) auto

lemma nth_dir_layouts:
  "length starts = length streams \<Longrightarrow> k < length streams \<Longrightarrow>
   dir_layouts i n streams starts ! k =
     entry_layout (projr (encode_utf16le (fst (streams ! k)))) 2 (starts ! k)
       (len (snd (streams ! k))) NOSTREAM NOSTREAM
       (if i + k + 1 < n then int (i + k) + 2 else NOSTREAM)"
proof (induction i n streams starts arbitrary: k rule: dir_layouts.induct)
  case (1 i n name data rest s starts)
  show ?case
  proof (cases k)
    case 0
    then show ?thesis by simp
  next
    case (Suc k')
    with "1.prems" have "length starts = length rest" "k' < length rest" by auto
    from "1.IH" [OF this] Suc show ?thesis by simp
  qed
next
  case (2 i n starts)
  then show ?case by simp
next
  case (3 i n v va)
  then show ?case by simp
qed

lemma dir_layouts_len128:
  "list_all (\<lambda>(name, data). encodable name \<and> utf16_units name \<le> 31) streams \<Longrightarrow>
   list_all (\<lambda>e. length e = 128) (dir_layouts i n streams starts)"
proof (induction i n streams starts rule: dir_layouts.induct)
  case (1 i n name data rest s starts)
  then have "encodable name" "utf16_units name \<le> 31" by auto
  from encode_utf16le_ok [OF this(1)] this(2)
  have "length (projr (encode_utf16le name)) \<le> 62" by auto
  from length_entry_layout [OF this] 1 show ?case by simp
qed simp_all

lemma root_name: "encodable (lit ''Root Entry'')" "utf16_units (lit ''Root Entry'') = 10"
  by (simp_all add: encodable_def utf16_units_def lit_def)

lemma length_root_layout: "length (root_layout n) = 128"
proof -
  from encode_utf16le_ok [OF root_name(1)] root_name(2)
  have "length (projr (encode_utf16le (lit ''Root Entry''))) \<le> 62" by auto
  from length_entry_layout [OF this] show ?thesis by (simp add: root_layout_def)
qed

section \<open>The directory sector\<close>

lemma len_le_nsectors: "len d \<le> 512 * nsectors d"
  unfolding nsectors_def SECTOR_def by (simp add: max_def) arith

lemma nsectors_le_sum:
  "(name, data) \<in> set streams \<Longrightarrow> nsectors data \<le> sum_sectors streams"
proof (induction streams)
  case Nil
  then show ?case by simp
next
  case (Cons a streams)
  obtain n d where a: "a = (n, d)" by (cases a)
  show ?case
    using Cons a sum_sectors_nonneg [of streams] nsectors_pos [of d]
    by (auto simp: add_increasing add_increasing2)
qed

lemma total_sectors_eq: "total_sectors streams = 3 + sum_sectors streams"
  by (simp add: total_sectors_def sum_sectors_def)

lemma capacity_streams:
  assumes "within_capacity streams"
  shows "list_all (\<lambda>(name, data). encodable name \<and> utf16_units name \<le> 31 \<and> len data < 2 ^ 32) streams"
proof -
  have "\<And>name data. (name, data) \<in> set streams \<Longrightarrow> len data < 2 ^ 32"
  proof -
    fix name data assume "(name, data) \<in> set streams"
    from nsectors_le_sum [OF this] assms have "nsectors data \<le> 125"
      by (simp add: within_capacity_def total_sectors_eq)
    with len_le_nsectors [of data] show "len data < 2 ^ 32" by simp
  qed
  with assms show ?thesis
    by (auto simp: within_capacity_def list_all_iff)
qed

lemma capacity_starts:
  assumes "within_capacity streams"
  shows "list_all (\<lambda>s. 0 \<le> s \<and> s < 2 ^ 32) (sector_starts 3 streams)"
  unfolding list_all_length
proof (intro allI impI)
  fix i assume "i < length (sector_starts 3 streams)"
  then have i: "i < length streams" by simp
  from sector_starts_bounds [OF i, of 3] nsectors_pos [of "snd (streams ! i)"] assms
  show "0 \<le> sector_starts 3 streams ! i \<and> sector_starts 3 streams ! i < 2 ^ 32"
    by (simp add: within_capacity_def total_sectors_eq)
qed

lemma dir_bytes_shape:
  assumes "within_capacity streams"
  shows "length (dir_bytes streams) = 4" "list_all (\<lambda>e. length e = 128) (dir_bytes streams)"
proof -
  have n: "length streams \<le> 3" using assms by (simp add: within_capacity_def)
  then show "length (dir_bytes streams) = 4"
    by (simp add: dir_bytes_def length_dir_layouts)
  have "list_all (\<lambda>(name, data). encodable name \<and> utf16_units name \<le> 31) streams"
    using assms by (simp add: within_capacity_def)
  from dir_layouts_len128 [OF this, of 0 "length streams" "sector_starts 3 streams"]
  show "list_all (\<lambda>e. length e = 128) (dir_bytes streams)"
    by (auto simp: dir_bytes_def length_root_layout list_all_iff)
qed

lemma length_concat_uniform:
  "list_all (\<lambda>e. length e = n) es \<Longrightarrow> length (concat es) = n * length es"
  by (induction es) auto

lemma take_drop_concat_uniform:
  "list_all (\<lambda>e. length e = n) es \<Longrightarrow> k < length es \<Longrightarrow>
   take n (drop (n * k) (concat es)) = es ! k"
proof (induction es arbitrary: k)
  case Nil
  then show ?case by simp
next
  case (Cons e es)
  show ?case
  proof (cases k)
    case 0
    with Cons.prems show ?thesis by simp
  next
    case (Suc k')
    with Cons.prems have "list_all (\<lambda>e. length e = n) es" "k' < length es" by auto
    from Cons.IH [OF this] Suc Cons.prems(1) show ?thesis by simp
  qed
qed

lemma dir_sector_ok:
  assumes "within_capacity streams"
  shows "dir_sector streams = Inr (concat (dir_bytes streams))"
proof -
  have n: "length streams \<le> 3" using assms by (simp add: within_capacity_def)
  have root: "dir_entry (lit ''Root Entry'') 5 ENDOFCHAIN 0
                (if length streams \<noteq> 0 then 1 else NOSTREAM) NOSTREAM NOSTREAM =
              Inr (root_layout (length streams))"
    unfolding root_layout_def using root_name
    by (intro dir_entry_eq) (auto simp: ENDOFCHAIN_def NOSTREAM_def)
  have loop: "collect (dir_loop 0 (length streams) streams (sector_starts 3 streams)) =
          Inr (dir_layouts 0 (length streams) streams (sector_starts 3 streams))"
    using n by (intro dir_loop_collect capacity_streams capacity_starts assms) auto
  have pad: "pad_entries (root_layout (length streams)
               # dir_layouts 0 (length streams) streams (sector_starts 3 streams)) =
             dir_bytes streams"
    unfolding pad_entries_eq dir_bytes_def by (simp add: length_dir_layouts)
  have "len (concat (dir_bytes streams)) = SECTOR"
    using length_concat_uniform [OF dir_bytes_shape(2) [OF assms]] dir_bytes_shape(1) [OF assms]
    by (simp add: len_def SECTOR_def)
  then show ?thesis
    using root loop pad by (simp add: dir_sector_def Let_def)
qed

section \<open>The header and the FAT table\<close>

lemma length_concat_replicate: "length (concat (replicate n b)) = n * length b"
  by (induction n) auto

lemma length_header_bytes: "length header_bytes = 512"
  by (simp add: header_bytes_def magic_def length_concat_replicate)

lemma header_eq: "header = Inr header_bytes"
proof -
  have "len header_bytes = SECTOR"
    by (simp add: len_def SECTOR_def length_header_bytes)
  then show ?thesis
    by (simp add: header_def header_bytes_def pack_H_def pack_I_def ENDOFCHAIN_def FREESECT_def)
qed

lemma fat_loop_range:
  "fat_loop streams starts fat = Inr fat' \<Longrightarrow> list_all (\<lambda>s. 0 \<le> s) starts \<Longrightarrow>
   len fat < 2 ^ 32 \<Longrightarrow> \<forall>x\<in>set fat. 0 \<le> x \<and> x < 2 ^ 32 \<Longrightarrow>
   \<forall>x\<in>set fat'. 0 \<le> x \<and> x < 2 ^ 32"
proof (induction streams starts fat rule: fat_loop.induct)
  case (1 name data rest s starts fat)
  from "1.prems"(1) obtain fat1 where
    c: "chain_loop s (nsectors data) [0..<nat (nsectors data)] fat = Inr fat1"
    and f: "fat_loop rest starts fat1 = Inr fat'"
    by (auto split: sum.splits)
  have s: "0 \<le> s" "list_all (\<lambda>s. 0 \<le> s) starts" using "1.prems"(2) by auto
  have r1: "\<forall>x\<in>set fat1. 0 \<le> x \<and> x < 2 ^ 32"
    using chain_loop_range [OF c s(1) "1.prems"(3,4)] .
  have l1: "len fat1 < 2 ^ 32"
  proof -
    have "\<And>js fat fat1. chain_loop s (nsectors data) js fat = Inr fat1 \<Longrightarrow> length fat1 = length fat"
    proof -
      fix js fat fat1
      show "chain_loop s (nsectors data) js fat = Inr fat1 \<Longrightarrow> length fat1 = length fat"
        by (induction js arbitrary: fat)
           (auto simp: setitem_def Let_def split: sum.splits if_splits)
    qed
    from this [OF c] "1.prems"(3) show ?thesis by (simp add: len_def)
  qed
  from "1.IH" [OF c f s(2) l1 r1] show ?case .
next
  case (2 starts fat)
  then show ?case by simp
next
  case (3 v va fat)
  then show ?case by simp
qed

lemma fat_init_simps:
  "length fat_init = 128" "fat_init ! 0 = FATSECT" "fat_init ! 1 = ENDOFCHAIN"
  "fat_init ! 2 = ENDOFCHAIN" "fat_init ! Suc 0 = ENDOFCHAIN"
  by (simp_all add: fat_init_def)

lemma fat_init_free: "3 \<le> k \<Longrightarrow> k < 128 \<Longrightarrow> fat_init ! k = FREESECT"
  by (simp add: fat_init_def)

lemma fat_init_range: "\<forall>x\<in>set fat_init. 0 \<le> x \<and> x < 2 ^ 32"
proof
  fix x assume "x \<in> set fat_init"
  then obtain k where "k < 128" "x = fat_init ! k"
    by (metis in_set_conv_nth fat_init_simps(1))
  moreover have "k = 0 \<or> k = 1 \<or> k = 2 \<or> 3 \<le> k" by arith
  ultimately show "0 \<le> x \<and> x < 2 ^ 32"
    using fat_init_free [of k] fat_init_simps(2-4)
    by (auto simp: FREESECT_def FATSECT_def ENDOFCHAIN_def)
qed

lemma fat_table_ok:
  assumes "within_capacity streams"
  shows "\<exists>fat. fat_table streams = Inr fat \<and> length fat = 128 \<and>
     (\<forall>x\<in>set fat. 0 \<le> x \<and> x < 2 ^ 32) \<and>
     fat ! 0 = FATSECT \<and> fat ! 1 = ENDOFCHAIN \<and> fat ! 2 = ENDOFCHAIN \<and>
     (\<forall>k<128. total_sectors streams \<le> int k \<longrightarrow> fat ! k = FREESECT) \<and>
     (\<forall>i<length streams. \<forall>j. 0 \<le> j \<and> j < nsectors (snd (streams ! i)) \<longrightarrow>
        fat ! nat (sector_starts 3 streams ! i + j) =
          (if j < nsectors (snd (streams ! i)) - 1
           then sector_starts 3 streams ! i + j + 1 else ENDOFCHAIN))"
proof -
  have cap: "3 + sum_sectors streams \<le> len fat_init"
    using assms by (simp add: within_capacity_def total_sectors_eq len_def fat_init_simps)
  from fat_loop_ok [OF _ cap] obtain fat where
    f: "fat_loop streams (sector_starts 3 streams) fat_init = Inr fat"
       "length fat = length fat_init"
       "\<forall>k<length fat_init. int k < 3 \<or> 3 + sum_sectors streams \<le> int k \<longrightarrow> fat ! k = fat_init ! k"
       "\<forall>i<length streams. \<forall>j. 0 \<le> j \<and> j < nsectors (snd (streams ! i)) \<longrightarrow>
        fat ! nat (sector_starts 3 streams ! i + j) =
          (if j < nsectors (snd (streams ! i)) - 1
           then sector_starts 3 streams ! i + j + 1 else ENDOFCHAIN)"
    by auto
  have st: "list_all (\<lambda>s. 0 \<le> s) (sector_starts 3 streams)"
    using capacity_starts [OF assms] by (simp add: list_all_iff)
  have r: "\<forall>x\<in>set fat. 0 \<le> x \<and> x < 2 ^ 32"
    using fat_loop_range [OF f(1) st _ fat_init_range] by (simp add: len_def fat_init_simps)
  have free: "\<forall>k<128. total_sectors streams \<le> int k \<longrightarrow> fat ! k = FREESECT"
  proof (intro allI impI)
    fix k :: nat assume k: "k < 128" "total_sectors streams \<le> int k"
    with sum_sectors_nonneg [of streams] have "3 \<le> k" by (simp add: total_sectors_eq)
    with f(3) k fat_init_free [of k] show "fat ! k = FREESECT"
      by (simp add: total_sectors_eq fat_init_simps)
  qed
  from f(3) have "fat ! 0 = fat_init ! 0" "fat ! 1 = fat_init ! 1" "fat ! 2 = fat_init ! 2"
    by (simp_all add: fat_init_simps)
  with f(1,2,4) r free show ?thesis
    by (intro exI [of _ fat]) (simp add: fat_table_def fat_init_simps)
qed

lemma pack_128I_ok:
  "length xs = 128 \<Longrightarrow> \<forall>x\<in>set xs. 0 \<le> x \<and> x < 2 ^ 32 \<Longrightarrow>
   pack_128I xs = Inr (concat (map (le_bytes 4) xs))"
  by (simp add: pack_128I_def cat_pack_I)

lemma body_loop_eq: "body_loop body streams = body @ concat (map (\<lambda>(name, data). pad_sector data) streams)"
  by (induction body streams rule: body_loop.induct) auto

lemma build_ole2_parts:
  assumes "within_capacity streams" "fat_table streams = Inr fat" "length fat = 128"
    "\<forall>x\<in>set fat. 0 \<le> x \<and> x < 2 ^ 32"
  shows "build_ole2 streams =
     Inr (header_bytes @ concat (map (le_bytes 4) fat) @ concat (dir_bytes streams)
          @ minifat_bytes @ concat (map (\<lambda>(name, data). pad_sector data) streams))"
proof -
  have "pack_128I (replicate 128 FREESECT) = Inr minifat_bytes"
    unfolding minifat_bytes_def by (intro pack_128I_ok) (simp_all add: FREESECT_def)
  then show ?thesis
    using assms(2) pack_128I_ok [OF assms(3,4)] dir_sector_ok [OF assms(1)]
    by (simp add: build_ole2_def body_loop_eq header_eq)
qed

section \<open>The assembled image\<close>

lemma length_minifat_bytes: "length minifat_bytes = 512"
  by (simp add: minifat_bytes_def length_concat_replicate)

lemma image_parts:
  assumes "length H = 512" "length F = 512" "length D = 512" "length M = 512"
  shows "take 512 (H @ F @ D @ M @ B) = H"
    "sector_of (H @ F @ D @ M @ B) 0 = F"
    "sector_of (H @ F @ D @ M @ B) 1 = D"
    "sector_of (H @ F @ D @ M @ B) 2 = M"
    "drop 2048 (H @ F @ D @ M @ B) = B"
    "length (H @ F @ D @ M @ B) = 2048 + length B"
  using assms by (simp_all add: sector_of_def)

lemma ceil_neg_div0: "(n::int) mod 512 = 0 \<Longrightarrow> - ((- n) div 512) = n div 512"
  by (simp add: zdiv_zminus1_eq_if)

lemma ceil_neg_div: "(n::int) mod 512 \<noteq> 0 \<Longrightarrow> - ((- n) div 512) = n div 512 + 1"
  by (simp add: zdiv_zminus1_eq_if)

lemma len_pad: "length (pad_sector d) = length d + (if len d mod 512 \<noteq> 0 then nat (512 - len d mod 512) else 0)"
  unfolding pad_sector_def Let_def SECTOR_def by simp


lemma length_pad_sector: "int (length (pad_sector d)) = 512 * (- ((- len d) div 512))"
proof -
  define q r where "q = len d div 512" and "r = len d mod 512"
  have n: "len d = 512 * q + r" unfolding q_def r_def by simp
  have r: "0 \<le> r" "r < 512" unfolding r_def by simp_all
  have l: "int (length d) = len d" by (simp add: len_def)
  show ?thesis
  proof (cases "r = 0")
    case True
    then have "- ((- len d) div 512) = q"
      unfolding q_def r_def by (rule ceil_neg_div0)
    moreover have "int (length (pad_sector d)) = len d"
      using True l unfolding len_pad r_def by simp
    ultimately show ?thesis using n True by simp
  next
    case False
    then have "- ((- len d) div 512) = q + 1"
      unfolding q_def r_def by (rule ceil_neg_div)
    moreover have "int (length (pad_sector d)) = len d + (512 - r)"
      using False l r unfolding len_pad r_def by simp
    ultimately show ?thesis using n by simp
  qed
qed

lemma ceil_sectors: "\<lceil>real (length d) / 512\<rceil> = - ((- len d) div 512)"
  using ceiling_divide_eq_div [of "int (length d)" 512] by (simp add: len_def)

lemma length_body:
  "int (length (concat (map (\<lambda>(name, data). pad_sector data) streams))) =
   sum_list (map (\<lambda>(name, data). \<lceil>real (length data) / 512\<rceil> * 512) streams)"
  by (induction streams) (auto simp: length_pad_sector ceil_sectors)

lemma dvd_length_body:
  "512 dvd length (concat (map (\<lambda>(name, data). pad_sector data) streams))"
proof (induction streams)
  case Nil
  then show ?case by simp
next
  case (Cons a streams)
  obtain name data where a: "a = (name, data)" by (cases a)
  have "(512::int) dvd int (length (pad_sector data))"
    unfolding length_pad_sector by (rule dvd_triv_left)
  then have "512 dvd length (pad_sector data)"
    using int_dvd_int_iff [of 512 "length (pad_sector data)"] by simp
  with Cons a show ?case by simp
qed

lemma build_ole2_image:
  assumes "within_capacity streams"
  obtains fat where "fat_table streams = Inr fat" "length fat = 128"
    "\<forall>x\<in>set fat. 0 \<le> x \<and> x < 2 ^ 32"
    "build_ole2 streams =
     Inr (header_bytes @ concat (map (le_bytes 4) fat) @ concat (dir_bytes streams)
          @ minifat_bytes @ concat (map (\<lambda>(name, data). pad_sector data) streams))"
proof -
  from fat_table_ok [OF assms] obtain fat where
    f: "fat_table streams = Inr fat" "length fat = 128" "\<forall>x\<in>set fat. 0 \<le> x \<and> x < 2 ^ 32"
    by blast
  from build_ole2_parts [OF assms f] f that show thesis by blast
qed

lemma length_dir_bytes:
  "within_capacity streams \<Longrightarrow> length (concat (dir_bytes streams)) = 512"
  using length_concat_uniform [OF dir_bytes_shape(2), of streams] dir_bytes_shape(1) [of streams]
  by simp

section \<open>The inputs on which the writer returns\<close>

lemma chain_loop_Inr:
  "chain_loop s n js fat = Inr fat' \<Longrightarrow> 0 \<le> s \<Longrightarrow>
   (\<forall>j\<in>set js. s + int j < len fat) \<and> length fat' = length fat"
proof (induction js arbitrary: fat)
  case Nil
  then show ?case by simp
next
  case (Cons j js)
  let ?v = "if int j < n - 1 then s + int j + 1 else ENDOFCHAIN"
  from Cons.prems(1) obtain fat1 where
    s1: "setitem fat (s + int j) ?v = Inr fat1" and c: "chain_loop s n js fat1 = Inr fat'"
    by (auto split: sum.splits)
  from s1 Cons.prems(2) have lt: "s + int j < len fat" and f1: "length fat1 = length fat"
    by (auto simp: setitem_def Let_def split: if_splits)
  from Cons.IH [OF c Cons.prems(2)] lt f1 show ?case by (simp add: len_def)
qed

lemma fat_loop_Inr:
  "fat_loop streams (sector_starts cur streams) fat = Inr fat' \<Longrightarrow> 0 \<le> cur \<Longrightarrow>
   cur \<le> len fat \<Longrightarrow> cur + sum_sectors streams \<le> len fat"
proof (induction cur streams arbitrary: fat rule: sector_starts.induct)
  case (1 cur)
  then show ?case by (simp add: len_def)
next
  case (2 cur name data rest)
  let ?n = "nsectors data"
  have n1: "1 \<le> ?n" by (rule nsectors_pos)
  from "2.prems"(1) obtain fat1 where
    c: "chain_loop cur ?n [0..<nat ?n] fat = Inr fat1"
    and f: "fat_loop rest (sector_starts (cur + ?n) rest) fat1 = Inr fat'"
    by (auto split: sum.splits)
  from chain_loop_Inr [OF c "2.prems"(2)] have l: "length fat1 = length fat"
    and b: "\<forall>j\<in>set [0..<nat ?n]. cur + int j < len fat" by simp_all
  have "nat ?n - 1 \<in> set [0..<nat ?n]" using n1 by simp
  with b have "cur + int (nat ?n - 1) < len fat" by blast
  then have le: "cur + ?n \<le> len fat1" using n1 l by (simp add: len_def)
  have "0 \<le> cur + ?n" using "2.prems"(2) n1 by simp
  from "2.IH" [OF f this le] l show ?case by (simp add: len_def add.assoc)
qed

lemma utf16le_cp_Inr:
  "utf16le_cp c = Inr b \<Longrightarrow>
   \<not> (0xD800 \<le> c \<and> c < 0xE000) \<and> length b = 2 * (if c < 0x10000 then 1 else 2)"
  by (auto simp: utf16le_cp_def split: if_splits)

lemma encode_utf16le_Inr:
  "encode_utf16le name = Inr u \<Longrightarrow> encodable name \<and> length u = 2 * utf16_units name"
proof (induction name arbitrary: u)
  case Nil
  then show ?case by (auto simp: encode_utf16le_def encodable_def utf16_units_def)
next
  case (Cons c name)
  from Cons.prems obtain b u' where
    b: "utf16le_cp c = Inr b" and u': "encode_utf16le name = Inr u'" and u: "u = b @ u'"
    by (auto simp: encode_utf16le_def split: sum.splits)
  from utf16le_cp_Inr [OF b] Cons.IH [OF u'] u show ?case
    by (auto simp: encodable_def utf16_units_def)
qed

lemma dir_entry_Inr:
  assumes "dir_entry name t st sz c l r = Inr e"
  shows "encodable name \<and> utf16_units name \<le> 31 \<and> length e = 128"
proof -
  from assms obtain u where u: "encode_utf16le name = Inr u"
    by (auto simp: dir_entry_def split: sum.splits)
  let ?rs = "[Inr (ljust (u @ [0, 0]) 64 0), pack_H (len u + 2), pack_B t, pack_B 1,
              pack_I l, pack_I r, pack_I c, Inr (replicate 16 0), pack_I 0, pack_Q 0,
              pack_Q 0, pack_I st, pack_I sz, pack_I 0]"
  from assms u obtain e' where e': "cat ?rs = Inr e'" "len e' = 128" "e = e'"
    by (auto simp: dir_entry_def Let_def split: sum.splits if_splits)
  have "list_all2 (\<lambda>r n. r = Inl StructError \<or> (\<exists>b. r = Inr b \<and> length b = n)) ?rs
          [max (length u + 2) 64, 2, 1, 1, 4, 4, 4, 16, 4, 8, 8, 4, 4, 4]"
    by (simp add: pack_cases length_ljust)
  from cat_struct_cases [OF this] e'(1)
  have "length e' = max (length u + 2) 64 + 64" by simp
  with e'(2) have "length u \<le> 62" by (simp add: len_def)
  with encode_utf16le_Inr [OF u] e' show ?thesis by (simp add: len_def)
qed

lemma collect_Inr:
  "collect rs = Inr xs \<Longrightarrow> list_all2 (\<lambda>r x. r = Inr x) rs xs"
  by (induction rs arbitrary: xs) (auto split: sum.splits)

lemma dir_loop_Inr:
  "collect (dir_loop i n streams starts) = Inr es \<Longrightarrow> length starts = length streams \<Longrightarrow>
   length es = length streams \<and> list_all (\<lambda>e. length e = 128) es \<and>
   list_all (\<lambda>(name, data). encodable name \<and> utf16_units name \<le> 31) streams"
proof (induction i n streams starts arbitrary: es rule: dir_loop.induct)
  case (1 i n name data rest s starts)
  from "1.prems"(1) obtain e es' where
    e: "dir_entry name 2 s (len data) NOSTREAM NOSTREAM
          (if i + 1 < n then int i + 2 else NOSTREAM) = Inr e"
    and es': "collect (dir_loop (i + 1) n rest starts) = Inr es'" and es: "es = e # es'"
    by (auto split: sum.splits)
  from "1.prems"(2) have "length starts = length rest" by simp
  from "1.IH" [OF es' this] dir_entry_Inr [OF e] es show ?case by simp
next
  case (2 i n starts)
  then show ?case by simp
next
  case (3 i n v va)
  then show ?case by simp
qed

lemma dir_sector_Inr:
  assumes "dir_sector streams = Inr d"
  shows "length streams \<le> 3 \<and>
         list_all (\<lambda>(name, data). encodable name \<and> utf16_units name \<le> 31) streams"
proof -
  from assms obtain root es where
    root: "dir_entry (lit ''Root Entry'') 5 ENDOFCHAIN 0
             (if length streams \<noteq> 0 then 1 else NOSTREAM) NOSTREAM NOSTREAM = Inr root"
    and es: "collect (dir_loop 0 (length streams) streams (sector_starts 3 streams)) = Inr es"
    and d: "len (concat (pad_entries (root # es))) = SECTOR"
    by (auto simp: dir_sector_def Let_def split: sum.splits if_splits)
  from dir_loop_Inr [OF es] have
    l: "length es = length streams" "list_all (\<lambda>e. length e = 128) es"
       "list_all (\<lambda>(name, data). encodable name \<and> utf16_units name \<le> 31) streams"
    by simp_all
  have "list_all (\<lambda>e. length e = 128) (pad_entries (root # es))"
    unfolding pad_entries_eq using dir_entry_Inr [OF root] l(2) by (auto simp: list_all_iff)
  from length_concat_uniform [OF this] d
  have "128 * length (pad_entries (root # es)) = 512" by (simp add: len_def SECTOR_def)
  then have "length streams \<le> 3" unfolding pad_entries_eq using l(1) by simp
  with l(3) show ?thesis by simp
qed

lemma build_ole2_Inr:
  assumes "build_ole2 streams = Inr img"
  shows "within_capacity streams"
proof -
  from assms obtain fat d where
    f: "fat_table streams = Inr fat" and d: "dir_sector streams = Inr d"
    by (auto simp: build_ole2_def split: sum.splits)
  from f have "3 + sum_sectors streams \<le> len fat_init"
    unfolding fat_table_def by (intro fat_loop_Inr) (simp_all add: len_def fat_init_simps)
  with dir_sector_Inr [OF d] show ?thesis
    by (simp add: within_capacity_def total_sectors_eq len_def fat_init_simps)
qed

lemma build_ole2_returns_iff:
  "(\<exists>img. build_ole2 streams = Inr img) \<longleftrightarrow> within_capacity streams"
proof
  assume "\<exists>img. build_ole2 streams = Inr img"
  then show "within_capacity streams" using build_ole2_Inr by blast
next
  assume "within_capacity streams"
  then show "\<exists>img. build_ole2 streams = Inr img" by (rule build_ole2_image) blast
qed

lemma build_ole2_view:
  assumes "build_ole2 streams = Inr img"
  obtains fat where "within_capacity streams" "fat_table streams = Inr fat" "length fat = 128"
    "\<forall>x\<in>set fat. 0 \<le> x \<and> x < 2 ^ 32"
    "take 512 img = header_bytes"
    "sector_of img 0 = concat (map (le_bytes 4) fat)"
    "sector_of img 1 = concat (dir_bytes streams)"
    "sector_of img 2 = minifat_bytes"
    "drop 2048 img = concat (map (\<lambda>(name, data). pad_sector data) streams)"
proof -
  have w: "within_capacity streams" using assms by (rule build_ole2_Inr)
  then obtain fat where
    f: "fat_table streams = Inr fat" "length fat = 128" "\<forall>x\<in>set fat. 0 \<le> x \<and> x < 2 ^ 32"
    "build_ole2 streams =
     Inr (header_bytes @ concat (map (le_bytes 4) fat) @ concat (dir_bytes streams)
          @ minifat_bytes @ concat (map (\<lambda>(name, data). pad_sector data) streams))"
    by (rule build_ole2_image)
  let ?F = "concat (map (le_bytes 4) fat)"
  let ?D = "concat (dir_bytes streams)"
  let ?B = "concat (map (\<lambda>(name, data). pad_sector data) streams)"
  have img: "img = header_bytes @ ?F @ ?D @ minifat_bytes @ ?B"
    using assms f(4) by simp
  have l: "length header_bytes = 512" "length ?F = 512" "length ?D = 512"
    "length minifat_bytes = 512"
    using f(2) length_dir_bytes [OF w]
    by (simp_all add: length_header_bytes length_minifat_bytes)
  show thesis
    using w f(1-3) image_parts(1-5) [OF l, of ?B] unfolding img [symmetric] by (rule that)
qed

lemma u32_at_take: "off + 4 \<le> n \<Longrightarrow> u32_at (take n bs) off = u32_at bs off"
  by (simp add: u32_at_def drop_take take_take min_def)

lemma u16_at_take: "off + 2 \<le> n \<Longrightarrow> u16_at (take n bs) off = u16_at bs off"
  by (simp add: u16_at_def drop_take min_def)

lemma le_bytes_4: "le_bytes 4 v =
  [word_of_int v, word_of_int (v div 256), word_of_int (v div 256 div 256),
   word_of_int (v div 256 div 256 div 256)]"
  by (simp add: eval_nat_numeral)

lemma header_u16:
  "u16_at header_bytes 24 = 0x3E" "u16_at header_bytes 26 = 3" "u16_at header_bytes 28 = 0xFFFE"
  "u16_at header_bytes 30 = 9" "u16_at header_bytes 32 = 6"
  by (simp_all add: header_bytes_def magic_def u16_at_def le_bytes_numeral)

lemma header_u32:
  "u32_at header_bytes 40 = 0" "u32_at header_bytes 44 = 1" "u32_at header_bytes 48 = 1"
  "u32_at header_bytes 56 = 0x1000" "u32_at header_bytes 60 = 2" "u32_at header_bytes 64 = 1"
  by (simp_all add: header_bytes_def magic_def u32_at_def le_bytes_numeral le_bytes_4)

lemma header_prefix:
  "take 8 header_bytes = magic" "take 16 (drop 8 header_bytes) = replicate 16 0"
  by (simp_all add: header_bytes_def magic_def)

lemma fat_entry_concat:
  assumes "length fat = 128" "\<forall>x\<in>set fat. 0 \<le> x \<and> x < 2 ^ 32" "k < 128"
  shows "int (u32_at (concat (map (le_bytes 4) fat)) (4 * k)) = fat ! k"
  using assms by (intro u32_at_concat_le4) auto

lemma minifat_entries:
  "k < 128 \<Longrightarrow> int (u32_at minifat_bytes (4 * k)) = FREESECT"
  unfolding minifat_bytes_def
  using u32_at_concat_le4 [of k "replicate 128 FREESECT"] by (simp add: FREESECT_def)

section \<open>Reading the FAT\<close>

lemma fat_chain_run:
  assumes "\<forall>j. j + 1 < n \<longrightarrow> fat_entry img (s + j) = s + j + 1"
    "int (fat_entry img (s + n - 1)) = ENDOFCHAIN" "int (s + n) < ENDOFCHAIN"
  shows "j < n \<Longrightarrow> n - j \<le> fuel \<Longrightarrow> fat_chain img fuel (s + j) = Some [s + j ..< s + n]"
proof (induction fuel arbitrary: j)
  case 0
  then show ?case by simp
next
  case (Suc fuel)
  show ?case
  proof (cases "j + 1 < n")
    case True
    with assms(1) have e: "fat_entry img (s + j) = s + j + 1" by blast
    with assms(3) True have ne: "int (fat_entry img (s + j)) \<noteq> ENDOFCHAIN" by simp
    have "fat_chain img fuel (s + (j + 1)) = Some [s + (j + 1) ..< s + n]"
      using True Suc.prems by (intro Suc.IH) simp_all
    then have "fat_chain img (Suc fuel) (s + j) = Some ((s + j) # [s + j + 1 ..< s + n])"
      using e ne by simp
    moreover have "(s + j) # [s + j + 1 ..< s + n] = [s + j ..< s + n]"
      using Suc.prems(1) by (simp add: upt_conv_Cons)
    ultimately show ?thesis by simp
  next
    case False
    with Suc.prems(1) have j: "s + j = s + n - 1" "s + n = Suc (s + j)" by simp_all
    from assms(2) have "int (fat_entry img (s + j)) = ENDOFCHAIN" unfolding j(1) .
    then show ?thesis unfolding j(2) by simp
  qed
qed

lemma fat_layout:
  assumes "within_capacity streams"
  shows "\<exists>img. build_ole2 streams = Inr img \<and>
     int (fat_entry img 0) = FATSECT \<and> int (fat_entry img 1) = ENDOFCHAIN \<and>
     int (fat_entry img 2) = ENDOFCHAIN \<and>
     (\<forall>i<length streams.
        3 \<le> sector_starts 3 streams ! i \<and>
        sector_starts 3 streams ! i + nsectors (snd (streams ! i)) \<le> total_sectors streams \<and>
        (\<forall>j. 0 \<le> j \<and> j < nsectors (snd (streams ! i)) - 1 \<longrightarrow>
           int (fat_entry img (nat (sector_starts 3 streams ! i + j))) =
             sector_starts 3 streams ! i + j + 1) \<and>
        int (fat_entry img (nat (sector_starts 3 streams ! i + nsectors (snd (streams ! i)) - 1))) =
          ENDOFCHAIN \<and>
        fat_chain img 128 (nat (sector_starts 3 streams ! i)) =
          Some [nat (sector_starts 3 streams ! i) ..<
                nat (sector_starts 3 streams ! i + nsectors (snd (streams ! i)))]) \<and>
     (\<forall>k<128. total_sectors streams \<le> int k \<longrightarrow> int (fat_entry img k) = FREESECT)"
proof -
  from assms build_ole2_returns_iff obtain img where b: "build_ole2 streams = Inr img" by blast
  then obtain fat where
    v: "fat_table streams = Inr fat" "length fat = 128"
       "\<forall>x\<in>set fat. 0 \<le> x \<and> x < 2 ^ 32"
       "sector_of img 0 = concat (map (le_bytes 4) fat)"
    by (rule build_ole2_view)
  have fe: "\<And>k. k < 128 \<Longrightarrow> int (fat_entry img k) = fat ! k"
    unfolding fat_entry_def v(4) using fat_entry_concat [OF v(2,3)] .
  from fat_table_ok [OF assms] v(1) have
    f: "fat ! 0 = FATSECT" "fat ! 1 = ENDOFCHAIN" "fat ! 2 = ENDOFCHAIN"
       "\<forall>k<128. total_sectors streams \<le> int k \<longrightarrow> fat ! k = FREESECT"
       "\<forall>i<length streams. \<forall>j. 0 \<le> j \<and> j < nsectors (snd (streams ! i)) \<longrightarrow>
        fat ! nat (sector_starts 3 streams ! i + j) =
          (if j < nsectors (snd (streams ! i)) - 1
           then sector_starts 3 streams ! i + j + 1 else ENDOFCHAIN)"
    by auto
  have cap: "total_sectors streams \<le> 128" using assms by (simp add: within_capacity_def)
  have run: "3 \<le> sector_starts 3 streams ! i \<and>
        sector_starts 3 streams ! i + nsectors (snd (streams ! i)) \<le> total_sectors streams \<and>
        (\<forall>j. 0 \<le> j \<and> j < nsectors (snd (streams ! i)) - 1 \<longrightarrow>
           int (fat_entry img (nat (sector_starts 3 streams ! i + j))) =
             sector_starts 3 streams ! i + j + 1) \<and>
        int (fat_entry img (nat (sector_starts 3 streams ! i + nsectors (snd (streams ! i)) - 1))) =
          ENDOFCHAIN \<and>
        fat_chain img 128 (nat (sector_starts 3 streams ! i)) =
          Some [nat (sector_starts 3 streams ! i) ..<
                nat (sector_starts 3 streams ! i + nsectors (snd (streams ! i)))]"
    if i: "i < length streams" for i
  proof -
    define s n where "s = sector_starts 3 streams ! i" and "n = nsectors (snd (streams ! i))"
    have n1: "1 \<le> n" unfolding n_def by (rule nsectors_pos)
    from sector_starts_bounds [OF i, of 3]
    have sb: "3 \<le> s" "s + n \<le> total_sectors streams"
      by (simp_all add: s_def n_def total_sectors_eq)
    have ent: "int (fat_entry img (nat (s + j))) =
                 (if j < n - 1 then s + j + 1 else ENDOFCHAIN)" if "0 \<le> j" "j < n" for j
    proof -
      have "nat (s + j) < 128" using that sb cap by simp
      from fe [OF this] f(5) i that show ?thesis by (simp add: s_def n_def)
    qed
    have a: "\<forall>j. 0 \<le> j \<and> j < n - 1 \<longrightarrow> int (fat_entry img (nat (s + j))) = s + j + 1"
      using ent by simp
    have l: "int (fat_entry img (nat (s + n - 1))) = ENDOFCHAIN"
      using ent [of "n - 1"] n1 by (simp add: algebra_simps)
    have c1: "\<forall>j. j + 1 < nat n \<longrightarrow> fat_entry img (nat s + j) = nat s + j + 1"
    proof (intro allI impI)
      fix j :: nat assume j: "j + 1 < nat n"
      then have "int (fat_entry img (nat (s + int j))) = s + int j + 1"
        using a by simp
      moreover have "nat (s + int j) = nat s + j" using sb(1) by simp
      ultimately show "fat_entry img (nat s + j) = nat s + j + 1" using sb(1) by simp
    qed
    have c2: "int (fat_entry img (nat s + nat n - 1)) = ENDOFCHAIN"
    proof -
      have "nat s + nat n - 1 = nat (s + n - 1)" using sb(1) n1 by simp
      with l show ?thesis by simp
    qed
    have c3: "int (nat s + nat n) < ENDOFCHAIN"
      using sb cap n1 by (simp add: ENDOFCHAIN_def)
    have "nat n - 0 \<le> (128::nat)" using sb cap n1 by simp
    from fat_chain_run [OF c1 c2 c3 _ this] n1
    have "fat_chain img 128 (nat s) = Some [nat s ..< nat s + nat n]" by simp
    moreover have "nat s + nat n = nat (s + n)" using sb(1) n1 by simp
    ultimately have "fat_chain img 128 (nat s) = Some [nat s ..< nat (s + n)]" by simp
    with sb a l show ?thesis unfolding s_def n_def by simp
  qed
  have "int (fat_entry img 0) = FATSECT" "int (fat_entry img 1) = ENDOFCHAIN"
    "int (fat_entry img 2) = ENDOFCHAIN"
    using fe [of 0] fe [of 1] fe [of 2] f(1-3) by simp_all
  moreover have "\<forall>k<128. total_sectors streams \<le> int k \<longrightarrow> int (fat_entry img k) = FREESECT"
    using fe f(4) by simp
  ultimately show ?thesis using b run by blast
qed

section \<open>Reading the directory\<close>

lemma le_val_4: "0 \<le> v \<Longrightarrow> v < 2 ^ 32 \<Longrightarrow> int (le_val (le_bytes 4 v)) = v"
  using le_val_le_bytes [of v 4] by simp

lemma le_val_2: "0 \<le> v \<Longrightarrow> v < 2 ^ 16 \<Longrightarrow> int (le_val (le_bytes 2 v)) = v"
  using le_val_le_bytes [of v 2] by simp

lemma entry_fields_raw:
  fixes nl t l r c st sz :: int
  assumes "length nf = 64"
  defines "E \<equiv> nf @ le_bytes 2 nl @ le_bytes 1 t @ le_bytes 1 1
     @ le_bytes 4 l @ le_bytes 4 r @ le_bytes 4 c @ replicate 16 0
     @ le_bytes 4 0 @ le_bytes 8 0 @ le_bytes 8 0
     @ le_bytes 4 st @ le_bytes 4 sz @ le_bytes 4 0"
  shows "take 64 E = nf" "take 2 (drop 64 E) = le_bytes 2 nl" "E ! 66 = word_of_int t"
    "take 4 (drop 68 E) = le_bytes 4 l" "take 4 (drop 72 E) = le_bytes 4 r"
    "take 4 (drop 76 E) = le_bytes 4 c" "take 4 (drop 116 E) = le_bytes 4 st"
    "take 4 (drop 120 E) = le_bytes 4 sz"
  using assms(1) unfolding E_def by (simp_all add: nth_append le_bytes_numeral)

lemma entry_layout_fields:
  assumes "length u \<le> 62" "0 \<le> t" "t < 2 ^ 8" "0 \<le> st" "st < 2 ^ 32" "0 \<le> sz" "sz < 2 ^ 32"
    "0 \<le> c" "c < 2 ^ 32" "0 \<le> l" "l < 2 ^ 32" "0 \<le> r" "r < 2 ^ 32"
  shows "entry_name (entry_layout u t st sz c l r) = ljust (u @ [0, 0]) 64 0"
    "int (entry_name_len (entry_layout u t st sz c l r)) = len u + 2"
    "int (entry_type (entry_layout u t st sz c l r)) = t"
    "int (entry_left (entry_layout u t st sz c l r)) = l"
    "int (entry_right (entry_layout u t st sz c l r)) = r"
    "int (entry_child (entry_layout u t st sz c l r)) = c"
    "int (entry_start (entry_layout u t st sz c l r)) = st"
    "int (entry_size (entry_layout u t st sz c l r)) = sz"
proof -
  have n: "length (ljust (u @ [0, 0]) 64 0) = 64"
    using assms(1) by (simp add: length_ljust)
  note raw = entry_fields_raw [OF n, of "len u + 2" t l r c st sz, folded entry_layout_def]
  show "entry_name (entry_layout u t st sz c l r) = ljust (u @ [0, 0]) 64 0"
    unfolding entry_name_def by (rule raw(1))
  have "len u + 2 < 2 ^ 16" "0 \<le> len u + 2" using assms(1) by (simp_all add: len_def)
  then show "int (entry_name_len (entry_layout u t st sz c l r)) = len u + 2"
    unfolding entry_name_len_def u16_at_def raw(2) by (intro le_val_2)
  have "int (unat (word_of_int t :: 8 word)) = t"
    using assms(2,3) by (simp add: unat_eq_nat_uint uint_word_of_int take_bit_eq_mod)
  then show "int (entry_type (entry_layout u t st sz c l r)) = t"
    unfolding entry_type_def raw(3) .
  show "int (entry_left (entry_layout u t st sz c l r)) = l"
    unfolding entry_left_def u32_at_def raw(4) using assms by (intro le_val_4)
  show "int (entry_right (entry_layout u t st sz c l r)) = r"
    unfolding entry_right_def u32_at_def raw(5) using assms by (intro le_val_4)
  show "int (entry_child (entry_layout u t st sz c l r)) = c"
    unfolding entry_child_def u32_at_def raw(6) using assms by (intro le_val_4)
  show "int (entry_start (entry_layout u t st sz c l r)) = st"
    unfolding entry_start_def u32_at_def raw(7) using assms by (intro le_val_4)
  show "int (entry_size (entry_layout u t st sz c l r)) = sz"
    unfolding entry_size_def u32_at_def raw(8) using assms by (intro le_val_4)
qed


lemma dir_entry_of_view:
  assumes "build_ole2 streams = Inr img" "k < 4"
  shows "dir_entry_of img k = dir_bytes streams ! k"
proof -
  from assms(1) obtain fat where
    v: "within_capacity streams" "sector_of img 1 = concat (dir_bytes streams)"
    by (rule build_ole2_view)
  from take_drop_concat_uniform [OF dir_bytes_shape(2) [OF v(1)], of k] assms(2)
    dir_bytes_shape(1) [OF v(1)]
  show ?thesis unfolding dir_entry_of_def v(2) by simp
qed

lemma dir_bytes_nth:
  "dir_bytes streams ! 0 = root_layout (length streams)"
  "i < length streams \<Longrightarrow>
   dir_bytes streams ! Suc i =
     entry_layout (projr (encode_utf16le (fst (streams ! i)))) 2 (sector_starts 3 streams ! i)
       (len (snd (streams ! i))) NOSTREAM NOSTREAM
       (if i + 1 < length streams then int i + 2 else NOSTREAM)"
  "length streams < k \<Longrightarrow> k < 4 \<Longrightarrow> dir_bytes streams ! k = replicate 128 0"
proof -
  show "dir_bytes streams ! 0 = root_layout (length streams)"
    by (simp add: dir_bytes_def)
  show "dir_bytes streams ! Suc i =
     entry_layout (projr (encode_utf16le (fst (streams ! i)))) 2 (sector_starts 3 streams ! i)
       (len (snd (streams ! i))) NOSTREAM NOSTREAM
       (if i + 1 < length streams then int i + 2 else NOSTREAM)" if "i < length streams"
    using that nth_dir_layouts [of "sector_starts 3 streams" streams i 0 "length streams"]
    by (simp add: dir_bytes_def nth_append length_dir_layouts)
  show "dir_bytes streams ! k = replicate 128 0" if h: "length streams < k" "k < 4"
  proof -
    obtain k' where k: "k = Suc k'" using h(1) by (cases k) auto
    with h have "length streams \<le> k'" "k' - length streams < 3 - length streams" by auto
    then show ?thesis
      unfolding dir_bytes_def k by (simp add: nth_append length_dir_layouts)
  qed
qed

lemma name_units:
  assumes "within_capacity streams" "i < length streams"
  shows "length (projr (encode_utf16le (fst (streams ! i)))) \<le> 62"
proof -
  obtain name data where nd: "streams ! i = (name, data)" by (cases "streams ! i")
  from assms have "encodable (fst (streams ! i)) \<and> utf16_units (fst (streams ! i)) \<le> 31"
    using nd by (auto simp: within_capacity_def list_all_length)
  with encode_utf16le_ok [of "fst (streams ! i)"] show ?thesis by auto
qed

lemma root_units: "length (projr (encode_utf16le (lit ''Root Entry''))) = 20"
  using encode_utf16le_ok [OF root_name(1)] root_name(2) by auto

lemma dir_layout:
  assumes "within_capacity streams"
  shows "\<exists>img. build_ole2 streams = Inr img \<and>
     length (sector_of img 1) = 4 * 128 \<and>
     entry_type (dir_entry_of img 0) = 5 \<and>
     int (entry_child (dir_entry_of img 0)) = (if 0 < length streams then 1 else NOSTREAM) \<and>
     (\<forall>i. 1 \<le> i \<and> i \<le> length streams \<longrightarrow>
        entry_type (dir_entry_of img i) = 2 \<and>
        int (entry_right (dir_entry_of img i)) =
          (if i < length streams then int i + 1 else NOSTREAM) \<and>
        int (entry_left (dir_entry_of img i)) = NOSTREAM \<and>
        int (entry_start (dir_entry_of img i)) = sector_starts 3 streams ! (i - 1) \<and>
        int (entry_size (dir_entry_of img i)) = len (snd (streams ! (i - 1)))) \<and>
     (\<forall>k. length streams < k \<and> k < 4 \<longrightarrow> dir_entry_of img k = replicate 128 0)"
proof -
  from assms build_ole2_returns_iff obtain img where b: "build_ole2 streams = Inr img" by blast
  then obtain fat where v: "sector_of img 1 = concat (dir_bytes streams)"
    by (rule build_ole2_view)
  have n3: "length streams \<le> 3" using assms by (simp add: within_capacity_def)
  have l: "length (sector_of img 1) = 4 * 128"
    unfolding v using length_dir_bytes [OF assms] by simp
  have e0: "dir_entry_of img 0 = root_layout (length streams)"
    using dir_entry_of_view [OF b, of 0] dir_bytes_nth(1) by simp
  have r20: "length (projr (encode_utf16le (lit ''Root Entry''))) \<le> 62"
    by (simp add: root_units)
  have root: "entry_type (dir_entry_of img 0) = 5"
    "int (entry_child (dir_entry_of img 0)) = (if 0 < length streams then 1 else NOSTREAM)"
    unfolding e0 root_layout_def
    using entry_layout_fields(3) [OF r20, of 5 ENDOFCHAIN 0
        "if length streams \<noteq> 0 then 1 else NOSTREAM" NOSTREAM NOSTREAM]
      entry_layout_fields(6) [OF r20, of 5 ENDOFCHAIN 0
        "if length streams \<noteq> 0 then 1 else NOSTREAM" NOSTREAM NOSTREAM]
    by (simp_all add: ENDOFCHAIN_def NOSTREAM_def)
  have ent: "entry_type (dir_entry_of img i) = 2 \<and>
        int (entry_right (dir_entry_of img i)) =
          (if i < length streams then int i + 1 else NOSTREAM) \<and>
        int (entry_left (dir_entry_of img i)) = NOSTREAM \<and>
        int (entry_start (dir_entry_of img i)) = sector_starts 3 streams ! (i - 1) \<and>
        int (entry_size (dir_entry_of img i)) = len (snd (streams ! (i - 1)))"
    if i: "1 \<le> i" "i \<le> length streams" for i
  proof -
    obtain i' where i': "i = Suc i'" "i' < length streams" using i by (cases i) auto
    let ?u = "projr (encode_utf16le (fst (streams ! i')))"
    let ?s = "sector_starts 3 streams ! i'"
    let ?z = "len (snd (streams ! i'))"
    let ?r = "if i' + 1 < length streams then int i' + 2 else NOSTREAM"
    have e: "dir_entry_of img i = entry_layout ?u 2 ?s ?z NOSTREAM NOSTREAM ?r"
      using dir_entry_of_view [OF b, of i] dir_bytes_nth(2) [OF i'(2)] i' n3 by simp
    have s: "0 \<le> ?s" "?s < 2 ^ 32"
      using capacity_starts [OF assms] i'(2) by (simp_all add: list_all_length)
    obtain name data where nd: "streams ! i' = (name, data)" by (cases "streams ! i'")
    have z: "0 \<le> ?z" "?z < 2 ^ 32"
      using capacity_streams [OF assms] i'(2) nd
      by (auto simp: list_all_length len_def)
    have r: "0 \<le> ?r" "?r < 2 ^ 32" using n3 i'(2) by (simp_all add: NOSTREAM_def)
    have ns: "0 \<le> NOSTREAM" "NOSTREAM < 2 ^ 32" by (simp_all add: NOSTREAM_def)
    note f = entry_layout_fields [OF name_units [OF assms i'(2)] _ _ s z ns ns r, of 2]
    show ?thesis unfolding e using f(3,4,5,7,8) i' by simp
  qed
  have z: "\<forall>k. length streams < k \<and> k < 4 \<longrightarrow> dir_entry_of img k = replicate 128 0"
    using dir_entry_of_view [OF b] dir_bytes_nth(3) by simp
  from b l root ent z show ?thesis by blast
qed

lemma stream_entry_view:
  assumes "build_ole2 streams = Inr img" "i < length streams"
  shows "dir_entry_of img (Suc i) =
     entry_layout (projr (encode_utf16le (fst (streams ! i)))) 2 (sector_starts 3 streams ! i)
       (len (snd (streams ! i))) NOSTREAM NOSTREAM
       (if i + 1 < length streams then int i + 2 else NOSTREAM)"
proof -
  have "within_capacity streams" using assms(1) by (rule build_ole2_Inr)
  then have "length streams \<le> 3" by (simp add: within_capacity_def)
  with dir_entry_of_view [OF assms(1), of "Suc i"] dir_bytes_nth(2) [OF assms(2)] assms(2)
  show ?thesis by simp
qed

lemma build_ole2_len:
  assumes "build_ole2 streams = Inr img"
  shows "length img = 2048 + length (concat (map (\<lambda>(name, data). pad_sector data) streams))"
proof -
  from assms obtain fat where
    v: "sector_of img 2 = minifat_bytes"
       "drop 2048 img = concat (map (\<lambda>(name, data). pad_sector data) streams)"
    by (rule build_ole2_view)
  have "length (take 512 (drop 1536 img)) = 512"
    using v(1) length_minifat_bytes by (simp add: sector_of_def)
  then have "2048 \<le> length img" by simp
  moreover have "length (drop 2048 img) = length img - 2048" by simp
  ultimately show ?thesis unfolding v(2) [symmetric] by simp
qed

section \<open>The property-set encoder\<close>

lemma and_not_mask_2: "(x::int) AND NOT (mask 2) = push_bit 2 (drop_bit 2 x)"
proof (rule bit_eqI)
  fix n
  have "2 \<le> n \<Longrightarrow> Suc (Suc (n - 2)) = n" by simp
  then show "bit (x AND NOT (mask 2)) n = bit (push_bit 2 (drop_bit 2 x)) n"
    by (auto simp: bit_simps)
qed

lemma and_not_3: "(x::int) AND NOT 3 = 4 * (x div 4)"
proof -
  have "(3::int) = mask 2" by (simp add: mask_eq_exp_minus_1)
  then show ?thesis
    using and_not_mask_2 [of x] by (simp add: push_bit_eq_mult drop_bit_eq_div)
qed

lemma align4_bounds: "x \<le> (x + 3) AND NOT 3" "(x + 3) AND NOT 3 \<le> x + (3::int)"
  unfolding and_not_3 by presburger+

lemma length_stream_header_bytes: "length stream_header_bytes = 48"
  by (simp add: stream_header_bytes_def FMTID_SUMMARY_def)

lemma stream_header_eq: "stream_header = Inr stream_header_bytes"
proof -
  have "len stream_header_bytes = SECTION_OFFSET"
    by (simp add: len_def SECTION_OFFSET_def length_stream_header_bytes)
  then show ?thesis
    by (simp add: stream_header_def stream_header_bytes_def pack_H_def pack_I_def
        SECTION_OFFSET_def)
qed

lemma prop_i4_ok:
  "- (2 ^ 31) \<le> v \<Longrightarrow> v < 2 ^ 31 \<Longrightarrow>
   prop_i4 pid v = Inr (pid, le_bytes 2 VT_I4 @ le_bytes 4 v)"
  by (simp add: prop_i4_def pack_H_def pack_i_def VT_I4_def)

lemma prop_str_ok:
  assumes "length txt < 2 ^ 31"
  shows "\<exists>val. prop_str pid txt = Inr (pid, val) \<and> int (length val) \<le> int (length txt) + 10"
proof -
  define d0 where "d0 = encode_latin1_replace txt @ [0]"
  define d where "d = (if len d0 mod 4 \<noteq> 0
                  then d0 @ replicate (nat (4 - len d0 mod 4)) 0 else d0)"
  have l0: "len d0 = int (length txt) + 1"
    by (simp add: d0_def len_def encode_latin1_replace_def)
  have m: "0 \<le> len d0 mod 4" "len d0 mod 4 < 4" by simp_all
  have ld: "len d \<le> len d0 + 3" "0 \<le> len d"
    using m by (auto simp: d_def len_def)
  have "len d < 2 ^ 32" using ld l0 assms by simp
  then have "prop_str pid txt = Inr (pid, le_bytes 2 VT_LPSTR @ le_bytes 4 (len d) @ d)"
    using ld(2)
    by (simp add: prop_str_def Let_def d_def [symmetric] d0_def [symmetric] pack_H_def
        pack_I_def VT_LPSTR_def)
  moreover have "int (length (le_bytes 2 VT_LPSTR @ le_bytes 4 (len d) @ d)) \<le> int (length txt) + 10"
    using ld l0 by (simp add: len_def)
  ultimately show ?thesis by blast
qed

lemma offsets_loop_bounds:
  "offsets_loop off0 props = (os, off) \<Longrightarrow>
   length os = length props \<and> off0 \<le> off \<and>
   off \<le> off0 + sum_list (map (\<lambda>(pid, val). len val + 3) props) \<and>
   (\<forall>x\<in>set os. off0 \<le> x \<and> x \<le> off)"
proof (induction off0 props arbitrary: os off rule: offsets_loop.induct)
  case (1 off0)
  then show ?case by simp
next
  case (2 off0 pid val rest)
  let ?o1 = "(off0 + len val + 3) AND NOT 3"
  from "2.prems" obtain os' where
    r: "offsets_loop ?o1 rest = (os', off)" and os: "os = off0 # os'"
    by (auto split: prod.splits)
  have b: "off0 + len val \<le> ?o1" "?o1 \<le> off0 + len val + 3"
    using align4_bounds [of "off0 + len val"] by simp_all
  have lv: "0 \<le> len val" by (simp add: len_def)
  from "2.IH" [OF r] os b lv show ?case by auto
qed

lemma take_drop_pairs:
  "k < length zs \<Longrightarrow>
   take 4 (drop (8 * k) (id_offset_pairs zs @ rest)) = le_bytes 4 (fst (fst (zs ! k)))"
proof (induction zs arbitrary: k)
  case Nil
  then show ?case by simp
next
  case (Cons z zs)
  obtain pid val o' where z: "z = ((pid, val), o')" by (cases z) auto
  show ?case
  proof (cases k)
    case 0
    then show ?thesis by (simp add: id_offset_pairs_def z)
  next
    case (Suc k')
    with Cons.prems have "k' < length zs" by simp
    from Cons.IH [OF this] Suc show ?thesis by (simp add: id_offset_pairs_def z)
  qed
qed

lemma cat_pairs:
  "list_all (\<lambda>((pid, val), o'). 0 \<le> pid \<and> pid < 2 ^ 32 \<and> 0 \<le> o' \<and> o' < 2 ^ 32) zs \<Longrightarrow>
   cat (map (\<lambda>((pid, val), o'). cat [pack_I pid, pack_I o']) zs @ rs) =
     (case cat rs of Inl e \<Rightarrow> Inl e | Inr b \<Rightarrow> Inr (id_offset_pairs zs @ b))"
  by (induction zs) (auto simp: id_offset_pairs_def pack_I_def split: sum.splits)

lemma prop_set_ok:
  assumes "list_all (\<lambda>(pid, val). 0 \<le> pid \<and> pid < 2 ^ 32) props"
    "8 + 8 * len props + sum_list (map (\<lambda>(pid, val). len val + 3) props) < 2 ^ 32"
  shows "prop_set props =
     Inr (le_bytes 4 (snd (offsets_loop (8 + 8 * len props) props)) @ le_bytes 4 (len props)
          @ id_offset_pairs (zip props (fst (offsets_loop (8 + 8 * len props) props)))
          @ values_loop 0 (len props) props)"
proof -
  obtain os off where o: "offsets_loop (8 + 8 * len props) props = (os, off)"
    by (cases "offsets_loop (8 + 8 * len props) props")
  have n0: "0 \<le> len props" by (simp add: len_def)
  have s0: "0 \<le> sum_list (map (\<lambda>(pid, val). len val + 3) props)"
    by (rule sum_list_nonneg) (auto simp: len_def)
  from offsets_loop_bounds [OF o] have
    b: "length os = length props" "8 + 8 * len props \<le> off"
       "off \<le> 8 + 8 * len props + sum_list (map (\<lambda>(pid, val). len val + 3) props)"
       "\<forall>x\<in>set os. 8 + 8 * len props \<le> x \<and> x \<le> off"
    by simp_all
  have off: "0 \<le> off" "off < 2 ^ 32" using b(2,3) assms(2) n0 by simp_all
  have n: "len props < 2 ^ 32" using assms(2) n0 s0 by simp
  have "list_all (\<lambda>((pid, val), o'). 0 \<le> pid \<and> pid < 2 ^ 32 \<and> 0 \<le> o' \<and> o' < 2 ^ 32)
          (zip props os)"
    unfolding list_all_iff
  proof
    fix z assume z: "z \<in> set (zip props os)"
    obtain pid val o' where e: "z = ((pid, val), o')" by (cases z) auto
    with z have "(pid, val) \<in> set props" "o' \<in> set os"
      by (auto dest: set_zip_leftD set_zip_rightD)
    with assms(1) b(4) off n0 e
    show "case z of (x, xa) \<Rightarrow> (case x of (pid, val) \<Rightarrow> \<lambda>o'. 0 \<le> pid \<and> pid < 2 ^ 32 \<and> 0 \<le> o' \<and> o' < 2 ^ 32) xa"
      by (auto simp: list_all_iff)
  qed
  from cat_pairs [OF this, of "[Inr (values_loop 0 (len props) props)]"] off n n0 o
  show ?thesis by (simp add: prop_set_def Let_def pack_I_def)
qed

lemma section_ids_eq:
  fixes off :: int and vals :: bytes
  assumes "length os = length props" "len props < 2 ^ 32"
    "list_all (\<lambda>(pid, val). 0 \<le> pid \<and> pid < 2 ^ 32) props"
  defines "stream \<equiv> stream_header_bytes @ le_bytes 4 off @ le_bytes 4 (len props)
     @ id_offset_pairs (zip props os) @ vals"
  shows "section_count stream = length props"
    "section_ids stream = map (\<lambda>(pid, val). nat pid) props"
    "take 4 (drop 48 stream) = le_bytes 4 off"
    "section_bytes stream = le_bytes 4 off @ le_bytes 4 (len props)
       @ id_offset_pairs (zip props os) @ vals"
proof -
  have "take 4 (drop 52 stream) = le_bytes 4 (len props)"
    unfolding stream_def by (simp add: length_stream_header_bytes)
  then have "int (section_count stream) = len props"
    unfolding section_count_def u32_at_def using assms(2) le_val_4 [of "len props"]
    by (simp add: len_def)
  then show c: "section_count stream = length props" by (simp add: len_def)
  have d: "drop (56 + 8 * k) stream = drop (8 * k) (id_offset_pairs (zip props os) @ vals)" for k
  proof -
    have "drop (56 + 8 * k) stream = drop (8 * k) (drop 56 stream)"
      by (simp add: add.commute)
    also have "drop 56 stream = id_offset_pairs (zip props os) @ vals"
      unfolding stream_def by (simp add: length_stream_header_bytes)
    finally show ?thesis .
  qed
  have id: "u32_at stream (48 + 8 + 8 * k) = nat (fst (props ! k))" if k: "k < length props" for k
  proof -
    have kz: "k < length (zip props os)" using k assms(1) by simp
    obtain pid val where pv: "props ! k = (pid, val)" by (cases "props ! k")
    have p: "0 \<le> fst (props ! k)" "fst (props ! k) < 2 ^ 32"
      using assms(3) k pv by (auto simp: list_all_length)
    have "take 4 (drop (56 + 8 * k) stream) = le_bytes 4 (fst (props ! k))"
      unfolding d using take_drop_pairs [OF kz, of vals] kz by simp
    then have "int (u32_at stream (56 + 8 * k)) = fst (props ! k)"
      unfolding u32_at_def using le_val_4 [OF p] by simp
    then show ?thesis by simp
  qed
  have "section_ids stream = map (\<lambda>k. nat (fst (props ! k))) [0..<length props]"
    unfolding section_ids_def c using id by simp
  also have "\<dots> = map (\<lambda>(pid, val). nat pid) props"
    by (rule nth_equalityI) (auto split: prod.splits)
  finally show "section_ids stream = map (\<lambda>(pid, val). nat pid) props" .
  show "take 4 (drop 48 stream) = le_bytes 4 off"
    unfolding stream_def by (simp add: length_stream_header_bytes)
  show "section_bytes stream = le_bytes 4 off @ le_bytes 4 (len props)
       @ id_offset_pairs (zip props os) @ vals"
    unfolding stream_def section_bytes_def by (simp add: length_stream_header_bytes)
qed

lemma summary_props_ok:
  assumes "- (2 ^ 31) \<le> page_count" "page_count < 2 ^ 31"
    "length title < 2 ^ 30" "length author < 2 ^ 30"
  obtains tv av where
    "summary_props page_count title author =
       Inr ((if title \<noteq> [] then [(0x02, tv)] else []) @ (if author \<noteq> [] then [(0x04, av)] else [])
            @ [(0x0E, le_bytes 2 VT_I4 @ le_bytes 4 page_count)])"
    "int (length tv) \<le> int (length title) + 10" "int (length av) \<le> int (length author) + 10"
proof -
  from prop_str_ok [of title 2] assms(3) obtain tv where
    t: "prop_str 2 title = Inr (2, tv)" "int (length tv) \<le> int (length title) + 10" by auto
  from prop_str_ok [of author 4] assms(4) obtain av where
    a: "prop_str 4 author = Inr (4, av)" "int (length av) \<le> int (length author) + 10" by auto
  have h: "summary_props page_count title author =
       Inr ((if title \<noteq> [] then [(0x02, tv)] else []) @ (if author \<noteq> [] then [(0x04, av)] else [])
            @ [(0x0E, le_bytes 2 VT_I4 @ le_bytes 4 page_count)])"
    using t(1) a(1) prop_i4_ok [OF assms(1,2), of "0x0E"]
    by (simp add: summary_props_def)
  show thesis using that [OF h t(2) a(2)] .
qed

lemma make_summary_stream_ok:
  assumes "- (2 ^ 31) \<le> page_count" "page_count < 2 ^ 31"
    "length title < 2 ^ 30" "length author < 2 ^ 30"
  shows "\<exists>stream. make_summary_stream page_count title author = Inr stream \<and>
     section_ids stream =
       (if title \<noteq> [] then [0x02] else []) @ (if author \<noteq> [] then [0x04] else []) @ [0x0E] \<and>
     section_count stream = length (section_ids stream)"
proof -
  from assms obtain tv av where
    p: "summary_props page_count title author =
       Inr ((if title \<noteq> [] then [(0x02, tv)] else []) @ (if author \<noteq> [] then [(0x04, av)] else [])
            @ [(0x0E, le_bytes 2 VT_I4 @ le_bytes 4 page_count)])"
    and l: "int (length tv) \<le> int (length title) + 10" "int (length av) \<le> int (length author) + 10"
    by (rule summary_props_ok)
  define props where "props = (if title \<noteq> [] then [(0x02::int, tv)] else [])
     @ (if author \<noteq> [] then [(0x04, av)] else [])
     @ [(0x0E, le_bytes 2 VT_I4 @ le_bytes 4 page_count)]"
  have pids: "list_all (\<lambda>(pid, val). 0 \<le> pid \<and> pid < 2 ^ 32) props"
    by (simp add: props_def)
  have sz: "8 + 8 * len props + sum_list (map (\<lambda>(pid, val). len val + 3) props) < 2 ^ 32"
    using l assms(3,4) by (simp add: props_def len_def)
  obtain os off where o: "offsets_loop (8 + 8 * len props) props = (os, off)"
    by (cases "offsets_loop (8 + 8 * len props) props")
  from offsets_loop_bounds [OF o] have los: "length os = length props" by simp
  have n: "len props < 2 ^ 32" by (simp add: props_def len_def)
  let ?stream = "stream_header_bytes @ le_bytes 4 off @ le_bytes 4 (len props)
     @ id_offset_pairs (zip props os) @ values_loop 0 (len props) props"
  have m: "make_summary_stream page_count title author = Inr ?stream"
    using p prop_set_ok [OF pids sz] o
    by (simp add: make_summary_stream_def props_def [symmetric] stream_header_eq)
  note s = section_ids_eq [OF los n pids, of off "values_loop 0 (len props) props"]
  have "section_ids ?stream =
       (if title \<noteq> [] then [0x02] else []) @ (if author \<noteq> [] then [0x04] else []) @ [0x0E]"
    unfolding s(2) by (simp add: props_def)
  moreover have "section_count ?stream = length (section_ids ?stream)"
    unfolding s(1) s(2) by simp
  ultimately show ?thesis using m by blast
qed

lemma cat_pairs_Inr:
  "cat (map (\<lambda>((pid, val), o'). cat [pack_I pid, pack_I o']) zs @ rs) = Inr b \<Longrightarrow>
   \<exists>b'. cat rs = Inr b' \<and> b = id_offset_pairs zs @ b'"
proof (induction zs arbitrary: b)
  case Nil
  then show ?case by (simp add: id_offset_pairs_def)
next
  case (Cons z zs)
  obtain pid val o' where z: "z = ((pid, val), o')" by (cases z) auto
  from Cons.prems obtain p b1 where
    p: "cat [pack_I pid, pack_I o'] = Inr p"
    and b1: "cat (map (\<lambda>((pid, val), o'). cat [pack_I pid, pack_I o']) zs @ rs) = Inr b1"
    and b: "b = p @ b1"
    by (auto simp: z split: sum.splits)
  from p have "p = le_bytes 4 pid @ le_bytes 4 o'"
    by (auto simp: pack_I_def split: if_splits)
  with Cons.IH [OF b1] b show ?case by (auto simp: id_offset_pairs_def z)
qed

lemma pack_I_Inr: "pack_I v = Inr b \<Longrightarrow> b = le_bytes 4 v \<and> 0 \<le> v \<and> v < 2 ^ 32"
  by (auto simp: pack_I_def split: if_splits)

lemma prop_set_Inr:
  assumes "prop_set props = Inr sec"
  shows "sec = le_bytes 4 (snd (offsets_loop (8 + 8 * len props) props)) @ le_bytes 4 (len props)
          @ id_offset_pairs (zip props (fst (offsets_loop (8 + 8 * len props) props)))
          @ values_loop 0 (len props) props \<and> len props < 2 ^ 32 \<and>
         0 \<le> snd (offsets_loop (8 + 8 * len props) props) \<and>
         snd (offsets_loop (8 + 8 * len props) props) < 2 ^ 32"
proof -
  obtain os off where o: "offsets_loop (8 + 8 * len props) props = (os, off)"
    by (cases "offsets_loop (8 + 8 * len props) props")
  from assms o obtain b0 b1 b2 where
    b0: "pack_I off = Inr b0" and b1: "pack_I (len props) = Inr b1"
    and b2: "cat (map (\<lambda>((pid, val), o'). cat [pack_I pid, pack_I o']) (zip props os)
                  @ [Inr (values_loop 0 (len props) props)]) = Inr b2"
    and sec: "sec = b0 @ b1 @ b2"
    by (auto simp: prop_set_def Let_def split: sum.splits)
  from cat_pairs_Inr [OF b2]
  have "b2 = id_offset_pairs (zip props os) @ values_loop 0 (len props) props" by auto
  with pack_I_Inr [OF b0] pack_I_Inr [OF b1] sec o show ?thesis by simp
qed

lemma prop_str_pid: "prop_str pid txt = Inr x \<Longrightarrow> fst x = pid"
  by (auto simp: prop_str_def Let_def split: sum.splits)

lemma prop_i4_pid: "prop_i4 pid v = Inr x \<Longrightarrow> fst x = pid"
  by (auto simp: prop_i4_def split: sum.splits)

lemma summary_props_Inr:
  assumes "summary_props page_count title author = Inr props"
  shows "map fst props =
    (if title \<noteq> [] then [0x02] else []) @ (if author \<noteq> [] then [0x04] else []) @ [0x0E]"
proof -
  have c: "collect (rs @ [r]) = Inr xs \<Longrightarrow>
      \<exists>ys y. collect rs = Inr ys \<and> r = Inr y \<and> xs = ys @ [y]" for rs r and xs :: "(int \<times> bytes) list"
    by (induction rs arbitrary: xs) (auto split: sum.splits)
  have c1: "collect [r] = Inr xs \<Longrightarrow> \<exists>y. r = Inr y \<and> xs = [y]" for r and xs :: "(int \<times> bytes) list"
    by (auto split: sum.splits)
  let ?t = "if title \<noteq> [] then [prop_str 0x02 title] else []"
  let ?a = "if author \<noteq> [] then [prop_str 0x04 author] else []"
  from assms have "collect ((?t @ ?a) @ [prop_i4 0x0E page_count]) = Inr props"
    by (simp add: summary_props_def)
  from c [OF this] obtain ys y where
    ys: "collect (?t @ ?a) = Inr ys" and y: "prop_i4 0x0E page_count = Inr y"
    and props: "props = ys @ [y]" by blast
  have "map fst ys = (if title \<noteq> [] then [0x02] else []) @ (if author \<noteq> [] then [0x04] else [])"
    using ys by (auto split: sum.splits if_splits dest!: prop_str_pid)
  with prop_i4_pid [OF y] props show ?thesis by simp
qed

lemma make_summary_stream_Inr:
  assumes "make_summary_stream page_count title author = Inr stream"
  shows "section_ids stream =
       (if title \<noteq> [] then [0x02] else []) @ (if author \<noteq> [] then [0x04] else []) @ [0x0E]"
    "section_count stream = length (section_ids stream)"
proof -
  from assms obtain props sec where
    p: "summary_props page_count title author = Inr props"
    and s: "prop_set props = Inr sec" and st: "stream = stream_header_bytes @ sec"
    by (auto simp: make_summary_stream_def stream_header_eq split: sum.splits)
  obtain os off where o: "offsets_loop (8 + 8 * len props) props = (os, off)"
    by (cases "offsets_loop (8 + 8 * len props) props")
  from offsets_loop_bounds [OF o] have los: "length os = length props" by simp
  from prop_set_Inr [OF s] o have
    sec: "sec = le_bytes 4 off @ le_bytes 4 (len props) @ id_offset_pairs (zip props os)
          @ values_loop 0 (len props) props" and n: "len props < 2 ^ 32" by simp_all
  have m: "map fst props =
    (if title \<noteq> [] then [0x02] else []) @ (if author \<noteq> [] then [0x04] else []) @ [0x0E]"
    using p by (rule summary_props_Inr)
  have "\<forall>pid\<in>set (map fst props). 0 \<le> pid \<and> pid < 2 ^ 32" unfolding m by auto
  then have pids: "list_all (\<lambda>(pid, val). 0 \<le> pid \<and> pid < 2 ^ 32) props"
    by (auto simp: list_all_iff)
  note f = section_ids_eq [OF los n pids, of off "values_loop 0 (len props) props",
      folded sec, folded st]
  have "map (\<lambda>(pid, val). nat pid) props = map nat (map fst props)"
    by (simp add: case_prod_beta)
  then show "section_ids stream =
       (if title \<noteq> [] then [0x02] else []) @ (if author \<noteq> [] then [0x04] else []) @ [0x0E]"
    unfolding f(2) m by simp
  show "section_count stream = length (section_ids stream)"
    unfolding f(1) f(2) by simp
qed

lemma prop_i4_Inr: "prop_i4 pid v = Inr x \<Longrightarrow> fst x = pid \<and> length (snd x) = 6"
  by (auto simp: prop_i4_def pack_H_def pack_i_def VT_I4_def split: sum.splits if_splits)

lemma summary_single_Inr:
  assumes "make_summary_stream page_count [] [] = Inr stream"
  shows "section_ids stream = [0x0E]" "section_count stream = 1"
    "length (section_bytes stream) = 22" "section_size stream = 24"
proof -
  from assms obtain props sec where
    p: "summary_props page_count [] [] = Inr props"
    and s: "prop_set props = Inr sec" and st: "stream = stream_header_bytes @ sec"
    by (auto simp: make_summary_stream_def stream_header_eq split: sum.splits)
  from p obtain y where y: "prop_i4 0x0E page_count = Inr y" and props: "props = [y]"
    by (auto simp: summary_props_def split: sum.splits)
  obtain pid v where yv: "y = (pid, v)" by (cases y)
  from prop_i4_Inr [OF y] yv have v: "pid = 0x0E" "length v = 6" by simp_all
  have o: "offsets_loop (8 + 8 * len props) props = ([16], 24)"
    by (simp add: props yv len_def v)
  from prop_set_Inr [OF s] have
    sec: "sec = le_bytes 4 24 @ le_bytes 4 (len props) @ id_offset_pairs (zip props [16])
          @ values_loop 0 (len props) props"
    unfolding o by simp
  have pids: "list_all (\<lambda>(pid, val). 0 \<le> pid \<and> pid < 2 ^ 32) props"
    by (simp add: props yv v)
  have los: "length [16::int] = length props" by (simp add: props)
  have n: "len props < 2 ^ 32" by (simp add: props len_def)
  note f = section_ids_eq [OF los n pids, of 24 "values_loop 0 (len props) props",
      folded sec, folded st]
  show "section_ids stream = [0x0E]" unfolding f(2) by (simp add: props yv v)
  show "section_count stream = 1" unfolding f(1) by (simp add: props)
  show "length (section_bytes stream) = 22"
    unfolding f(4) sec by (simp add: props yv v id_offset_pairs_def len_def)
  have "int (section_size stream) = 24"
    unfolding section_size_def u32_at_def f(3) by (rule le_val_4) simp_all
  then show "section_size stream = 24" by simp
qed

lemma length_values_loop:
  "int (length (values_loop i n props)) \<le> sum_list (map (\<lambda>(pid, val). len val + 3) props)"
proof (induction i n props rule: values_loop.induct)
  case (1 i n)
  then show ?case by simp
next
  case (2 i n pid val rest)
  have "(4 - len val mod 4) mod 4 \<le> 3" by presburger
  moreover have "0 \<le> (4 - len val mod 4) mod 4" by simp
  ultimately have "int (nat ((4 - len val mod 4) mod 4)) \<le> 3" by simp
  with 2 show ?case by (simp add: len_def)
qed

lemma length_id_offset_pairs: "length (id_offset_pairs zs) = 8 * length zs"
  by (induction zs) (auto simp: id_offset_pairs_def)

lemma make_summary_stream_len:
  assumes "- (2 ^ 31) \<le> page_count" "page_count < 2 ^ 31"
    "length title < 2 ^ 30" "length author < 2 ^ 30"
  shows "\<exists>stream. make_summary_stream page_count title author = Inr stream \<and>
     int (length stream) \<le> int (length title) + int (length author) + 120"
proof -
  from assms obtain tv av where
    p: "summary_props page_count title author =
       Inr ((if title \<noteq> [] then [(0x02, tv)] else []) @ (if author \<noteq> [] then [(0x04, av)] else [])
            @ [(0x0E, le_bytes 2 VT_I4 @ le_bytes 4 page_count)])"
    and l: "int (length tv) \<le> int (length title) + 10" "int (length av) \<le> int (length author) + 10"
    by (rule summary_props_ok)
  define props where "props = (if title \<noteq> [] then [(0x02::int, tv)] else [])
     @ (if author \<noteq> [] then [(0x04, av)] else [])
     @ [(0x0E, le_bytes 2 VT_I4 @ le_bytes 4 page_count)]"
  have pids: "list_all (\<lambda>(pid, val). 0 \<le> pid \<and> pid < 2 ^ 32) props"
    by (simp add: props_def)
  have sm: "sum_list (map (\<lambda>(pid, val). len val + 3) props)
              \<le> int (length title) + int (length author) + 35"
    using l by (simp add: props_def len_def)
  have np: "len props \<le> 3" by (simp add: props_def len_def)
  have sz: "8 + 8 * len props + sum_list (map (\<lambda>(pid, val). len val + 3) props) < 2 ^ 32"
    using sm np assms(3,4) by simp
  obtain os off where o: "offsets_loop (8 + 8 * len props) props = (os, off)"
    by (cases "offsets_loop (8 + 8 * len props) props")
  from offsets_loop_bounds [OF o] have los: "length os = length props" by simp
  let ?stream = "stream_header_bytes @ le_bytes 4 off @ le_bytes 4 (len props)
     @ id_offset_pairs (zip props os) @ values_loop 0 (len props) props"
  have m: "make_summary_stream page_count title author = Inr ?stream"
    using p prop_set_ok [OF pids sz] o
    by (simp add: make_summary_stream_def props_def [symmetric] stream_header_eq)
  have "int (length ?stream) \<le> 48 + 8 + 8 * len props
          + sum_list (map (\<lambda>(pid, val). len val + 3) props)"
    using length_values_loop [of 0 "len props" props] los
    by (simp add: length_stream_header_bytes length_id_offset_pairs len_def)
  with sm np have "int (length ?stream) \<le> int (length title) + int (length author) + 120"
    by simp
  with m show ?thesis by blast
qed

lemma pad_sector_props:
  "int (length (pad_sector data)) = \<lceil>real (length data) / 512\<rceil> * 512"
  "take (length data) (pad_sector data) = data"
  "set (drop (length data) (pad_sector data)) \<subseteq> {0}"
  by (simp_all add: length_pad_sector ceil_sectors) (auto simp: pad_sector_def Let_def)

section \<open>Properties at their offsets\<close>

lemma le_val_le_bytes_mod: "int (le_val (le_bytes n v)) = v mod 256 ^ n"
proof (induction n arbitrary: v)
  case 0
  then show ?case by simp
next
  case (Suc n)
  have b: "int (unat (word_of_int v :: 8 word)) = v mod 256"
    by (simp add: unat_eq_nat_uint uint_word_of_int take_bit_eq_mod)
  have "v mod (256 * 256 ^ n) = 256 * (v div 256 mod 256 ^ n) + v mod 256"
    by (rule zmod_zmult2_eq) simp
  with Suc.IH [of "v div 256"] b show ?case by simp
qed

lemma i32_decode:
  assumes "- (2 ^ 31) \<le> v" "v < 2 ^ 31" "take 4 (drop off bs) = le_bytes 4 v"
  shows "i32_at bs off = v"
proof -
  have u: "int (u32_at bs off) = v mod 2 ^ 32"
    unfolding u32_at_def assms(3) using le_val_le_bytes_mod [of 4 v] by simp
  show ?thesis
  proof (cases "0 \<le> v")
    case True
    with assms(2) have "v mod 2 ^ 32 = v" by simp
    with u assms(2) show ?thesis by (simp add: i32_at_def Let_def)
  next
    case False
    then have "(v + 2 ^ 32) mod 2 ^ 32 = v + 2 ^ 32"
      using assms(1) by (intro mod_pos_pos_trivial) simp_all
    moreover have "(v + 2 ^ 32) mod 2 ^ 32 = v mod 2 ^ 32" by simp
    ultimately have "v mod 2 ^ 32 = v + 2 ^ 32" by simp
    with u assms(1) False show ?thesis by (simp add: i32_at_def Let_def)
  qed
qed

lemma lpstr_data_props:
  "length (lpstr_data txt) = 4 * ((length txt + 4) div 4)"
  "take (length txt) (lpstr_data txt) = encode_latin1_replace txt"
  "drop (length txt) (lpstr_data txt) = replicate (4 * ((length txt + 4) div 4) - length txt) 0"
proof -
  define L where "L = length txt"
  have le: "length (encode_latin1_replace txt) = L"
    by (simp add: encode_latin1_replace_def L_def)
  have i: "int (Suc L) mod 4 = int (Suc L mod 4)" by (simp add: zmod_int)
  have "Suc L mod 4 \<noteq> 0 \<Longrightarrow> Suc L + (4 - Suc L mod 4) = 4 * ((L + 4) div 4)"
    by presburger
  then have m: "int (Suc L) mod 4 \<noteq> 0 \<Longrightarrow>
      Suc L + nat (4 - int (Suc L) mod 4) = 4 * ((L + 4) div 4)"
    unfolding i by (simp add: nat_diff_distrib')
  have "Suc L mod 4 = 0 \<Longrightarrow> Suc L = 4 * ((L + 4) div 4)"
    by presburger
  then have m0: "int (Suc L) mod 4 = 0 \<Longrightarrow> Suc L = 4 * ((L + 4) div 4)"
    unfolding i by simp
  show "length (lpstr_data txt) = 4 * ((length txt + 4) div 4)"
    using m m0 by (auto simp: lpstr_data_def Let_def len_def le L_def [symmetric])
  show "take (length txt) (lpstr_data txt) = encode_latin1_replace txt"
    by (simp add: lpstr_data_def Let_def le L_def [symmetric])
  have "drop L (lpstr_data txt) = replicate (length (lpstr_data txt) - L) 0"
  proof (cases "len (encode_latin1_replace txt @ [0]) mod 4 = 0")
    case True
    then have "lpstr_data txt = encode_latin1_replace txt @ [0]"
      by (simp add: lpstr_data_def Let_def)
    then show ?thesis by (simp add: le)
  next
    case False
    define p where "p = nat (4 - len (encode_latin1_replace txt @ [0]) mod 4)"
    from False have "lpstr_data txt = encode_latin1_replace txt @ [0] @ replicate p 0"
      by (simp add: lpstr_data_def Let_def p_def)
    then show ?thesis by (simp add: le)
  qed
  then show "drop (length txt) (lpstr_data txt) =
      replicate (4 * ((length txt + 4) div 4) - length txt) 0"
    unfolding \<open>length (lpstr_data txt) = 4 * ((length txt + 4) div 4)\<close> L_def .
qed

lemma prop_i4_value:
  "prop_i4 pid v = Inr x \<Longrightarrow> x = (pid, i4_value v) \<and> - (2 ^ 31) \<le> v \<and> v < 2 ^ 31"
  by (auto simp: prop_i4_def pack_H_def pack_i_def VT_I4_def i4_value_def
      split: sum.splits if_splits)

lemma prop_str_value:
  "prop_str pid txt = Inr x \<Longrightarrow> x = (pid, lpstr_value txt) \<and> len (lpstr_data txt) < 2 ^ 32"
  by (auto simp: prop_str_def pack_H_def pack_I_def VT_LPSTR_def lpstr_value_def lpstr_data_def
      Let_def split: sum.splits if_splits)

lemma summary_props_values:
  assumes "summary_props page_count title author = Inr props"
  shows "props =
      (if title \<noteq> [] then [(0x02, lpstr_value title)] else [])
      @ (if author \<noteq> [] then [(0x04, lpstr_value author)] else [])
      @ [(0x0E, i4_value page_count)]"
    "- (2 ^ 31) \<le> page_count" "page_count < 2 ^ 31"
    "title \<noteq> [] \<Longrightarrow> len (lpstr_data title) < 2 ^ 32"
    "author \<noteq> [] \<Longrightarrow> len (lpstr_data author) < 2 ^ 32"
proof -
  have c: "collect (rs @ [r]) = Inr xs \<Longrightarrow>
      \<exists>ys y. collect rs = Inr ys \<and> r = Inr y \<and> xs = ys @ [y]" for rs r and xs :: "(int \<times> bytes) list"
    by (induction rs arbitrary: xs) (auto split: sum.splits)
  let ?t = "if title \<noteq> [] then [prop_str 0x02 title] else []"
  let ?a = "if author \<noteq> [] then [prop_str 0x04 author] else []"
  from assms have "collect ((?t @ ?a) @ [prop_i4 0x0E page_count]) = Inr props"
    by (simp add: summary_props_def)
  from c [OF this] obtain ys y where
    ys: "collect (?t @ ?a) = Inr ys" and y: "prop_i4 0x0E page_count = Inr y"
    and props: "props = ys @ [y]" by blast
  from prop_i4_value [OF y] have y': "y = (0x0E, i4_value page_count)"
    and r: "- (2 ^ 31) \<le> page_count" "page_count < 2 ^ 31" by simp_all
  show "- (2 ^ 31) \<le> page_count" "page_count < 2 ^ 31" by (rule r)+
  have t: "title \<noteq> [] \<Longrightarrow> \<exists>x. prop_str 0x02 title = Inr x"
    using ys by (auto split: sum.splits if_splits)
  have a: "author \<noteq> [] \<Longrightarrow> \<exists>x. prop_str 0x04 author = Inr x"
    using ys by (auto split: sum.splits if_splits)
  show "len (lpstr_data title) < 2 ^ 32" if "title \<noteq> []"
    using t [OF that] prop_str_value by blast
  show "len (lpstr_data author) < 2 ^ 32" if "author \<noteq> []"
    using a [OF that] prop_str_value by blast
  have "ys = (if title \<noteq> [] then [(0x02, lpstr_value title)] else [])
      @ (if author \<noteq> [] then [(0x04, lpstr_value author)] else [])"
    using ys by (auto split: sum.splits if_splits dest!: prop_str_value)
  with props y' show "props =
      (if title \<noteq> [] then [(0x02, lpstr_value title)] else [])
      @ (if author \<noteq> [] then [(0x04, lpstr_value author)] else [])
      @ [(0x0E, i4_value page_count)]" by simp
qed

lemma cat_pairs_range:
  "cat (map (\<lambda>((pid, val), o'). cat [pack_I pid, pack_I o']) zs @ rs) = Inr b \<Longrightarrow>
   list_all (\<lambda>((pid, val), o'). 0 \<le> o' \<and> o' < 2 ^ 32) zs"
proof (induction zs arbitrary: b)
  case Nil
  then show ?case by simp
next
  case (Cons z zs)
  obtain pid val o' where z: "z = ((pid, val), o')" by (cases z) auto
  from Cons.prems obtain p b1 where
    p: "cat [pack_I pid, pack_I o'] = Inr p"
    and b1: "cat (map (\<lambda>((pid, val), o'). cat [pack_I pid, pack_I o']) zs @ rs) = Inr b1"
    by (auto simp: z split: sum.splits)
  from p have "0 \<le> o' \<and> o' < 2 ^ 32"
    by (auto simp: pack_I_def split: if_splits sum.splits)
  with Cons.IH [OF b1] show ?case by (simp add: z)
qed

lemma take_drop_pair:
  "k < length zs \<Longrightarrow>
   take 8 (drop (8 * k) (id_offset_pairs zs @ rest)) =
     le_bytes 4 (fst (fst (zs ! k))) @ le_bytes 4 (snd (zs ! k))"
proof (induction zs arbitrary: k)
  case Nil
  then show ?case by simp
next
  case (Cons z zs)
  obtain pid val o' where z: "z = ((pid, val), o')" by (cases z) auto
  show ?case
  proof (cases k)
    case 0
    then show ?thesis by (simp add: id_offset_pairs_def z)
  next
    case (Suc k')
    with Cons.prems have "k' < length zs" by simp
    from Cons.IH [OF this] Suc show ?thesis by (simp add: id_offset_pairs_def z)
  qed
qed

lemma take_drop_pairs_offset:
  assumes "k < length zs"
  shows "take 4 (drop (8 * k + 4) (id_offset_pairs zs @ rest)) = le_bytes 4 (snd (zs ! k))"
proof -
  define X where "X = id_offset_pairs zs @ rest"
  have g: "take 4 (drop 4 (take 8 Y)) = take 4 (drop 4 Y)" for Y :: bytes
    by (simp add: drop_take)
  have "drop (8 * k + 4) X = drop 4 (drop (8 * k) X)"
    by (simp only: drop_drop add.commute [of 4])
  then have "take 4 (drop (8 * k + 4) X) = take 4 (drop 4 (take 8 (drop (8 * k) X)))"
    by (simp only: g)
  also have "take 8 (drop (8 * k) X) =
      le_bytes 4 (fst (fst (zs ! k))) @ le_bytes 4 (snd (zs ! k))"
    unfolding X_def by (rule take_drop_pair [OF assms])
  finally show ?thesis unfolding X_def by simp
qed

lemma align4_pad:
  fixes off0 L :: int
  assumes "off0 mod 4 = 0"
  shows "((off0 + L + 3) AND NOT 3) - off0 = L + (4 - L mod 4) mod 4"
proof -
  have "4 * ((off0 + L + 3) div 4) - off0 = L + (4 - L mod 4) mod 4"
    using assms by presburger
  then show ?thesis unfolding and_not_3 .
qed

lemma align4_mod: "((x::int) AND NOT 3) mod 4 = 0"
  unfolding and_not_3 by simp

lemma values_at:
  assumes "off0 mod 4 = 0" "offsets_loop off0 props = (os, off)" "n = i + len props"
    "k < length props"
  shows "off0 \<le> os ! k \<and>
     take (length (snd (props ! k))) (drop (nat (os ! k - off0)) (values_loop i n props))
       = snd (props ! k) \<and>
     nat (os ! k - off0) + length (snd (props ! k)) \<le> length (values_loop i n props)"
  using assms
proof (induction off0 props arbitrary: os off i k rule: offsets_loop.induct)
  case (1 off0)
  then show ?case by simp
next
  case (2 off0 pid val rest)
  let ?o1 = "(off0 + len val + 3) AND NOT 3"
  from "2.prems"(2) obtain os' where
    r: "offsets_loop ?o1 rest = (os', off)" and os: "os = off0 # os'"
    by (auto split: prod.splits)
  show ?case
  proof (cases k)
    case 0
    then show ?thesis by (simp add: os)
  next
    case (Suc k')
    with "2.prems"(4) have k': "k' < length rest" by simp
    then have ne: "rest \<noteq> []" by auto
    have lt: "i < n - 1" using "2.prems"(3) ne by (simp add: len_def)
    let ?pad = "replicate (nat ((4 - len val mod 4) mod 4)) (0::byte)"
    have v: "values_loop i n ((pid, val) # rest) = (val @ ?pad) @ values_loop (i + 1) n rest"
      using lt by simp
    have lv: "0 \<le> len val" by (simp add: len_def)
    have lp: "int (length (val @ ?pad)) = ?o1 - off0"
      using align4_pad [OF "2.prems"(1), of "len val"] lv by (simp add: len_def)
    have n': "n = (i + 1) + len rest" using "2.prems"(3) by (simp add: len_def)
    from "2.IH" [OF align4_mod r n' k'] have
      ih: "?o1 \<le> os' ! k'"
        "take (length (snd (rest ! k'))) (drop (nat (os' ! k' - ?o1)) (values_loop (i + 1) n rest))
           = snd (rest ! k')"
        "nat (os' ! k' - ?o1) + length (snd (rest ! k')) \<le> length (values_loop (i + 1) n rest)"
      by simp_all
    have o1: "off0 \<le> ?o1" using lp by linarith
    have sp: "nat (os' ! k' - off0) = length (val @ ?pad) + nat (os' ! k' - ?o1)"
      using lp ih(1) o1 by linarith
    have d: "drop (nat (os' ! k' - off0)) ((val @ ?pad) @ values_loop (i + 1) n rest)
           = drop (nat (os' ! k' - ?o1)) (values_loop (i + 1) n rest)"
      unfolding sp by (simp only: drop_append) simp
    have "off0 \<le> os ! k" using ih(1) o1 by (simp add: os Suc)
    moreover have "take (length (snd (((pid, val) # rest) ! k)))
        (drop (nat (os ! k - off0)) (values_loop i n ((pid, val) # rest)))
        = snd (((pid, val) # rest) ! k)"
      unfolding v using d ih(2) by (simp only: os Suc nth_Cons_Suc)
    moreover have "nat (os ! k - off0) + length (snd (((pid, val) # rest) ! k))
        \<le> length (values_loop i n ((pid, val) # rest))"
      unfolding v using sp ih(3) by (simp only: os Suc nth_Cons_Suc length_append)
    ultimately show ?thesis by blast
  qed
qed

lemma sub_take:
  assumes "take L (drop off sec) = val" "a + w \<le> L"
  shows "take w (drop (off + a) sec) = take w (drop a val)"
proof -
  have "take w (drop a (take L (drop off sec))) = take w (drop a (drop off sec))"
    using assms(2) by (simp add: drop_take min_def)
  then show ?thesis unfolding assms(1) by (simp add: add.commute)
qed

lemma i4_property_atI:
  assumes "take 6 (drop off sec) = i4_value v" "off + 6 \<le> length sec"
    "- (2 ^ 31) \<le> v" "v < 2 ^ 31"
  shows "i4_property_at sec off v"
proof -
  have "take 2 (drop (off + 0) sec) = take 2 (drop 0 (i4_value v))"
    using assms(1) by (rule sub_take) simp
  then have t: "u16_at sec off = 3"
    by (simp add: u16_at_def i4_value_def VT_I4_def le_bytes_numeral)
  have "take 4 (drop (off + 2) sec) = take 4 (drop 2 (i4_value v))"
    using assms(1) by (rule sub_take) simp
  then have "take 4 (drop (off + 2) sec) = le_bytes 4 v"
    by (simp add: i4_value_def)
  from i32_decode [OF assms(3,4) this] t assms(2) show ?thesis
    by (simp add: i4_property_at_def)
qed

lemma lpstr_property_atI:
  assumes "take (length (lpstr_value txt)) (drop off sec) = lpstr_value txt"
    "off + length (lpstr_value txt) \<le> length sec" "len (lpstr_data txt) < 2 ^ 32"
  shows "lpstr_property_at sec off txt"
proof -
  define c where "c = 4 * ((length txt + 4) div 4)"
  have ld: "length (lpstr_data txt) = c" unfolding c_def by (rule lpstr_data_props)
  have lc: "length txt \<le> c" unfolding c_def by presburger
  have lv: "length (lpstr_value txt) = 6 + c" by (simp add: lpstr_value_def ld)
  have v: "lpstr_value txt = le_bytes 2 0x1E @ le_bytes 4 (int c) @ lpstr_data txt"
    by (simp add: lpstr_value_def VT_LPSTR_def len_def ld)
  have "take 2 (drop (off + 0) sec) = take 2 (drop 0 (lpstr_value txt))"
    using assms(1) by (rule sub_take) (simp add: lv)
  then have t: "u16_at sec off = 0x1E"
    by (simp add: u16_at_def v le_bytes_numeral)
  have "take 4 (drop (off + 2) sec) = take 4 (drop 2 (lpstr_value txt))"
    using assms(1) by (rule sub_take) (simp add: lv)
  then have "take 4 (drop (off + 2) sec) = le_bytes 4 (int c)" by (simp add: v)
  then have "int (u32_at sec (off + 2)) = int c"
    unfolding u32_at_def using le_val_4 [of "int c"] assms(3) by (simp add: len_def ld)
  then have n: "u32_at sec (off + 2) = c" by simp
  have "take (length txt) (drop (off + 6) sec) = take (length txt) (drop 6 (lpstr_value txt))"
    using assms(1) by (rule sub_take) (simp add: lv lc)
  then have d: "take (length txt) (drop (off + 6) sec) = encode_latin1_replace txt"
    by (simp add: v lpstr_data_props(2))
  have "take (c - length txt) (drop (off + (6 + length txt)) sec) =
      take (c - length txt) (drop (6 + length txt) (lpstr_value txt))"
    using assms(1) by (rule sub_take) (simp add: lv lc)
  also have "drop (6 + length txt) (lpstr_value txt) = drop (length txt) (lpstr_data txt)"
    by (simp add: v)
  finally have z: "take (c - length txt) (drop (off + 6 + length txt) sec) =
      replicate (c - length txt) 0"
    by (simp add: lpstr_data_props(3) c_def add.assoc)
  show ?thesis
    unfolding lpstr_property_at_def Let_def c_def [symmetric]
    using t n d z assms(2) lv by simp
qed

lemma stream_properties:
  assumes "make_summary_stream page_count title author = Inr stream"
  shows "\<exists>props. summary_props page_count title author = Inr props \<and>
     length (section_offsets stream) = length props \<and>
     length (section_ids stream) = length props \<and>
     hd (section_offsets stream) = 8 + 8 * length props \<and>
     (\<forall>k<length props.
        section_offsets stream ! k + length (snd (props ! k)) \<le> length (section_bytes stream) \<and>
        take (length (snd (props ! k))) (drop (section_offsets stream ! k) (section_bytes stream))
          = snd (props ! k))"
proof -
  from assms obtain props sec where
    p: "summary_props page_count title author = Inr props"
    and s: "prop_set props = Inr sec" and st: "stream = stream_header_bytes @ sec"
    by (auto simp: make_summary_stream_def stream_header_eq split: sum.splits)
  define hs where "hs = 8 + 8 * len props"
  obtain os off where o: "offsets_loop hs props = (os, off)"
    by (cases "offsets_loop hs props")
  from offsets_loop_bounds [OF o] have los: "length os = length props"
    and lo: "\<forall>x\<in>set os. hs \<le> x" by simp_all
  define V where "V = values_loop 0 (len props) props"
  define P where "P = le_bytes 4 off @ le_bytes 4 (len props) @ id_offset_pairs (zip props os)"
  from prop_set_Inr [OF s] o have
    sec: "sec = le_bytes 4 off @ le_bytes 4 (len props) @ id_offset_pairs (zip props os) @ V"
    and n: "len props < 2 ^ 32" by (simp_all add: hs_def V_def)
  have secP: "sec = P @ V" by (simp add: sec P_def)
  have lP: "int (length P) = hs"
    by (simp add: P_def hs_def length_id_offset_pairs los len_def)
  from s o obtain b2 where
    "cat (map (\<lambda>((pid, val), o'). cat [pack_I pid, pack_I o']) (zip props os)
          @ [Inr (values_loop 0 (len props) props)]) = Inr b2"
    by (auto simp: prop_set_def Let_def hs_def split: sum.splits)
  from cat_pairs_range [OF this]
  have ro: "list_all (\<lambda>((pid, val), o'). 0 \<le> o' \<and> o' < 2 ^ 32) (zip props os)" .
  have m: "map fst props =
    (if title \<noteq> [] then [0x02] else []) @ (if author \<noteq> [] then [0x04] else []) @ [0x0E]"
    using p by (rule summary_props_Inr)
  have "\<forall>pid\<in>set (map fst props). 0 \<le> pid \<and> pid < 2 ^ 32" unfolding m by auto
  then have pids: "list_all (\<lambda>(pid, val). 0 \<le> pid \<and> pid < 2 ^ 32) props"
    by (auto simp: list_all_iff)
  note f = section_ids_eq [OF los n pids, of off V, folded sec, folded st]
  have ne: "props \<noteq> []" using m by auto
  have off_k: "section_offsets stream ! k = nat (os ! k) \<and> hs \<le> os ! k"
    if k: "k < length props" for k
  proof -
    have kz: "k < length (zip props os)" using k los by simp
    have sn: "snd (zip props os ! k) = os ! k" using k los by simp
    obtain pv where z: "zip props os ! k = (pv, os ! k)"
      using sn by (cases "zip props os ! k") auto
    obtain pid val where pv: "pv = (pid, val)" by (cases pv)
    from ro kz z pv have r: "0 \<le> os ! k" "os ! k < 2 ^ 32"
      by (auto simp: list_all_length)
    have "drop (48 + 8 + 8 * k + 4) stream = drop (8 * k + 4) (drop 56 stream)"
      by (simp add: add.commute add.left_commute)
    also have "drop 56 stream = id_offset_pairs (zip props os) @ V"
      unfolding st sec by (simp add: length_stream_header_bytes)
    finally have "take 4 (drop (48 + 8 + 8 * k + 4) stream) = le_bytes 4 (os ! k)"
      using take_drop_pairs_offset [OF kz, of V] sn by simp
    then have "int (u32_at stream (48 + 8 + 8 * k + 4)) = os ! k"
      unfolding u32_at_def using le_val_4 [OF r] by simp
    moreover have "os ! k \<in> set os" using k los by simp
    ultimately show ?thesis
      using k lo by (simp add: section_offsets_def f(1))
  qed
  have lso: "length (section_offsets stream) = length props"
    by (simp add: section_offsets_def f(1))
  have val_k: "section_offsets stream ! k + length (snd (props ! k)) \<le> length (section_bytes stream) \<and>
        take (length (snd (props ! k))) (drop (section_offsets stream ! k) (section_bytes stream))
          = snd (props ! k)" if k: "k < length props" for k
  proof -
    have hm: "hs mod 4 = 0" unfolding hs_def by presburger
    from values_at [OF hm o _ k, of "len props" 0] have
      a: "hs \<le> os ! k"
        "take (length (snd (props ! k))) (drop (nat (os ! k - hs)) V) = snd (props ! k)"
        "nat (os ! k - hs) + length (snd (props ! k)) \<le> length V"
      by (simp_all add: V_def)
    have so: "section_offsets stream ! k = length P + nat (os ! k - hs)"
      using off_k [OF k] lP by linarith
    have "drop (section_offsets stream ! k) (P @ V) = drop (nat (os ! k - hs)) V"
      unfolding so by (simp only: drop_append) simp
    with a(2,3) so show ?thesis unfolding f(4) secP by simp
  qed
  have "section_offsets stream \<noteq> []" using ne lso by auto
  then have "hd (section_offsets stream) = section_offsets stream ! 0"
    by (rule hd_conv_nth)
  moreover have "os ! 0 = hs" using o ne by (cases props) (auto split: prod.splits)
  ultimately have hd: "hd (section_offsets stream) = 8 + 8 * length props"
    using off_k [of 0] ne by (simp add: hs_def len_def nat_add_distrib nat_mult_distrib)
  have "length (section_ids stream) = length props" unfolding f(2) by simp
  with p lso hd val_k show ?thesis by blast
qed

section \<open>The fixture of the specification\<close>

lemma nsectors_replicate_4096: "nsectors (replicate 4096 0) = 8"
  by (simp add: nsectors_def len_def SECTOR_def)

lemma ppt_name: "encodable (lit ''PowerPoint Document'')" "utf16_units (lit ''PowerPoint Document'') = 19"
  by (simp_all add: encodable_def utf16_units_def lit_def)

lemma ppt_capacity: "within_capacity ppt_streams"
  by (simp add: ppt_streams_def within_capacity_def total_sectors_def nsectors_replicate_4096
      ppt_name)

lemma empty_capacity: "within_capacity []"
  by (simp add: within_capacity_def total_sectors_def)

lemma ppt_facts:
  "length ppt_streams = 1" "sector_starts 3 ppt_streams = [3]"
  "nsectors (snd (ppt_streams ! 0)) = 8" "total_sectors ppt_streams = 11"
  by (simp_all add: ppt_streams_def total_sectors_def nsectors_replicate_4096)

lemma ppt_fat:
  assumes "build_ole2 ppt_streams = Inr img"
  shows "int (fat_entry img 0) = FATSECT" "int (fat_entry img 1) = ENDOFCHAIN"
    "int (fat_entry img 2) = ENDOFCHAIN" "int (fat_entry img 3) = 4"
    "int (fat_entry img 9) = 10" "int (fat_entry img 10) = ENDOFCHAIN"
    "fat_chain img 128 3 = Some [3, 4, 5, 6, 7, 8, 9, 10]"
    "int (fat_entry img 11) = FREESECT"
proof -
  from fat_layout [OF ppt_capacity] assms have
    e: "int (fat_entry img 0) = FATSECT" "int (fat_entry img 1) = ENDOFCHAIN"
       "int (fat_entry img 2) = ENDOFCHAIN"
    and r: "\<forall>i<length ppt_streams.
        3 \<le> sector_starts 3 ppt_streams ! i \<and>
        sector_starts 3 ppt_streams ! i + nsectors (snd (ppt_streams ! i)) \<le> total_sectors ppt_streams \<and>
        (\<forall>j. 0 \<le> j \<and> j < nsectors (snd (ppt_streams ! i)) - 1 \<longrightarrow>
           int (fat_entry img (nat (sector_starts 3 ppt_streams ! i + j))) =
             sector_starts 3 ppt_streams ! i + j + 1) \<and>
        int (fat_entry img (nat (sector_starts 3 ppt_streams ! i + nsectors (snd (ppt_streams ! i)) - 1))) =
          ENDOFCHAIN \<and>
        fat_chain img 128 (nat (sector_starts 3 ppt_streams ! i)) =
          Some [nat (sector_starts 3 ppt_streams ! i) ..<
                nat (sector_starts 3 ppt_streams ! i + nsectors (snd (ppt_streams ! i)))]"
    and fr: "\<forall>k<128. total_sectors ppt_streams \<le> int k \<longrightarrow> int (fat_entry img k) = FREESECT"
    by auto
  from r [rule_format, of 0] have
    j: "\<forall>j. 0 \<le> j \<and> j < 7 \<longrightarrow> int (fat_entry img (nat (3 + j))) = 3 + j + 1"
    and l: "int (fat_entry img (nat 10)) = ENDOFCHAIN"
    and c: "fat_chain img 128 (nat 3) = Some [nat 3 ..< nat 11]"
    by (simp_all add: ppt_facts)
  show "int (fat_entry img 0) = FATSECT" "int (fat_entry img 1) = ENDOFCHAIN"
    "int (fat_entry img 2) = ENDOFCHAIN" by (rule e)+
  from j [rule_format, of 0] show "int (fat_entry img 3) = 4" by simp
  from j [rule_format, of 6] show "int (fat_entry img 9) = 10" by simp
  from l show "int (fat_entry img 10) = ENDOFCHAIN" by simp
  have "[nat 3 ..< nat 11] = [3, 4, 5, 6, 7, 8, 9, 10]" by (simp add: upt_rec_numeral)
  with c show "fat_chain img 128 3 = Some [3, 4, 5, 6, 7, 8, 9, 10]" by simp
  from fr [rule_format, of 11] show "int (fat_entry img 11) = FREESECT"
    by (simp add: ppt_facts)
qed

lemma two_capacity: "within_capacity two_streams"
  by (simp add: two_streams_def within_capacity_def total_sectors_def nsectors_def len_def
      SECTOR_def encodable_def utf16_units_def lit_def)

lemma length_pad_4096: "length (pad_sector (replicate 4096 0)) = 4096"
  using length_pad_sector [of "replicate 4096 0"] by (simp add: len_def)

lemma ppt_name_bytes:
  "encode_utf16le (lit ''PowerPoint Document'') =
     Inr (projr (encode_utf16le (lit ''PowerPoint Document'')))"
  "length (projr (encode_utf16le (lit ''PowerPoint Document''))) = 38"
  using encode_utf16le_ok [OF ppt_name(1)] ppt_name(2) by auto

lemma ppt_image:
  assumes "build_ole2 ppt_streams = Inr img"
  shows "length img = 6144"
    "Inr (take 38 (dir_entry_of img 1)) = encode_utf16le (lit ''PowerPoint Document'')"
    "drop 38 (entry_name (dir_entry_of img 1)) = replicate 26 0"
    "entry_name_len (dir_entry_of img 1) = 40"
    "entry_type (dir_entry_of img 1) = 2"
    "entry_start (dir_entry_of img 1) = 3"
    "entry_size (dir_entry_of img 1) = 4096"
proof -
  let ?u = "projr (encode_utf16le (lit ''PowerPoint Document''))"
  show "length img = 6144"
    using build_ole2_len [OF assms] by (simp add: ppt_streams_def length_pad_4096)
  have e: "dir_entry_of img 1 = entry_layout ?u 2 3 4096 NOSTREAM NOSTREAM NOSTREAM"
    using stream_entry_view [OF assms, of 0] by (simp add: ppt_streams_def len_def)
  have u: "length ?u \<le> 62" by (simp add: ppt_name_bytes(2))
  note f = entry_layout_fields [OF u, of 2 3 4096 NOSTREAM NOSTREAM NOSTREAM, folded e]
  have n: "entry_name (dir_entry_of img 1) = ?u @ replicate 26 0"
  proof -
    have "ljust (?u @ [0, 0]) 64 0 = ?u @ [0, 0] @ replicate 24 0"
      by (simp add: ljust_def ppt_name_bytes(2))
    also have "[0, 0] @ replicate 24 0 = replicate 26 (0::byte)"
      by (simp add: eval_nat_numeral)
    finally show ?thesis using f(1) by (simp add: NOSTREAM_def)
  qed
  have "take 38 (dir_entry_of img 1) = take 38 (entry_name (dir_entry_of img 1))"
    by (simp add: entry_name_def)
  also have "\<dots> = ?u" unfolding n by (simp add: ppt_name_bytes(2))
  finally show "Inr (take 38 (dir_entry_of img 1)) = encode_utf16le (lit ''PowerPoint Document'')"
    using ppt_name_bytes(1) by simp
  show "drop 38 (entry_name (dir_entry_of img 1)) = replicate 26 0"
    unfolding n by (simp add: ppt_name_bytes(2))
  from f(2) show "entry_name_len (dir_entry_of img 1) = 40"
    by (simp add: NOSTREAM_def len_def ppt_name_bytes(2))
  from f(3) show "entry_type (dir_entry_of img 1) = 2" by (simp add: NOSTREAM_def)
  from f(7) show "entry_start (dir_entry_of img 1) = 3" by (simp add: NOSTREAM_def)
  from f(8) show "entry_size (dir_entry_of img 1) = 4096" by (simp add: NOSTREAM_def)
qed

lemma doc_name: "encodable (5 # lit ''SummaryInformation'')"
  "utf16_units (5 # lit ''SummaryInformation'') = 19"
  by (simp_all add: encodable_def utf16_units_def lit_def)

lemma pad_sector_4096: "length d = 4096 \<Longrightarrow> pad_sector d = d"
  by (simp add: pad_sector_def Let_def len_def SECTOR_def)

lemma doc_capacity:
  "length d = 4096 \<Longrightarrow> within_capacity [(5 # lit ''SummaryInformation'', d)]"
  by (simp add: within_capacity_def total_sectors_def nsectors_def len_def SECTOR_def doc_name)

lemma doc_image:
  "\<exists>summary img.
     make_summary_stream 10 (lit ''Legacy Word Test'') (lit ''DocReader Tests'') = Inr summary \<and>
     length summary < 4096 \<and> length (ljust summary 4096 0) = 4096 \<and>
     make_doc_10page = Inr img \<and> length img = 2048 + 4096 \<and>
     drop 2048 img = ljust summary 4096 0"
proof -
  from make_summary_stream_len [of 10 "lit ''Legacy Word Test''" "lit ''DocReader Tests''"]
  obtain summary where
    s: "make_summary_stream 10 (lit ''Legacy Word Test'') (lit ''DocReader Tests'') = Inr summary"
    and l: "length summary < 4096"
    by (auto simp: lit_def)
  let ?d = "ljust summary 4096 0"
  have ld: "length ?d = 4096" using l by (simp add: length_ljust)
  from doc_capacity [OF ld] build_ole2_returns_iff obtain img where
    b: "build_ole2 [(5 # lit ''SummaryInformation'', ?d)] = Inr img" by blast
  then obtain fat where
    v: "drop 2048 img = concat (map (\<lambda>(name, data). pad_sector data)
          [(5 # lit ''SummaryInformation'', ?d)])"
    by (rule build_ole2_view)
  have "make_doc_10page = Inr img" using s b by (simp add: make_doc_10page_def)
  moreover have "length img = 2048 + 4096"
    using build_ole2_len [OF b] by (simp add: pad_sector_4096 [OF ld] ld)
  moreover have "drop 2048 img = ?d" using v by (simp add: pad_sector_4096 [OF ld])
  ultimately show ?thesis using s l ld by blast
qed

lemma two_image:
  assumes "build_ole2 two_streams = Inr img"
  shows "length img = 2048 + 512 + 512" "entry_size (dir_entry_of img 1) = 1"
    "entry_size (dir_entry_of img 2) = 1"
proof -
  have p: "length (pad_sector [b]) = 512" for b :: byte
    using length_pad_sector [of "[b]"] by (simp add: len_def)
  show "length img = 2048 + 512 + 512"
    using build_ole2_len [OF assms] by (simp add: two_streams_def p)
  from dir_layout [OF two_capacity] assms have
    e: "\<forall>i. 1 \<le> i \<and> i \<le> length two_streams \<longrightarrow>
        int (entry_size (dir_entry_of img i)) = len (snd (two_streams ! (i - 1)))"
    by auto
  from e [rule_format, of 1] show "entry_size (dir_entry_of img 1) = 1"
    by (simp add: two_streams_def len_def)
  from e [rule_format, of 2] show "entry_size (dir_entry_of img 2) = 1"
    by (simp add: two_streams_def len_def)
qed

section \<open>The claims\<close>

text \<open>
  C8. For every stream name of at most 31 UTF-16 code units the length assertion of
  \<^verbatim>\<open>_dir_entry\<close> cannot fail and whatever \<^verbatim>\<open>_dir_entry\<close> returns has exactly 128
  bytes; it does return when the name is encodable text and every field fits its
  \<^verbatim>\<open>struct\<close> format; and the directory sector assembled for a stream list within
  capacity is exactly 512 bytes.
\<close>

theorem dir_entry_128_bytes:
  assumes "utf16_units name \<le> 31"
  shows "dir_entry name t st sz c l r \<noteq> Inl AssertionError \<and>
     (\<forall>e. dir_entry name t st sz c l r = Inr e \<longrightarrow> length e = 128) \<and>
     (encodable name \<and> 0 \<le> t \<and> t < 2 ^ 8 \<and>
      list_all (\<lambda>v. 0 \<le> v \<and> v < 2 ^ 32) [st, sz, c, l, r] \<longrightarrow>
        (\<exists>e. dir_entry name t st sz c l r = Inr e \<and> length e = 128)) \<and>
     (within_capacity streams \<longrightarrow> (\<exists>d. dir_sector streams = Inr d \<and> length d = 512))"
proof (intro conjI impI)
  from dir_entry_cases [OF assms, of t st sz c l r]
  show "dir_entry name t st sz c l r \<noteq> Inl AssertionError" by auto
next
  show "\<forall>e. dir_entry name t st sz c l r = Inr e \<longrightarrow> length e = 128"
    using dir_entry_cases [OF assms, of t st sz c l r] by auto
next
  assume a: "encodable name \<and> 0 \<le> t \<and> t < 2 ^ 8 \<and>
      list_all (\<lambda>v. 0 \<le> v \<and> v < 2 ^ 32) [st, sz, c, l, r]"
  from encode_utf16le_ok [of name] a assms
  have "length (projr (encode_utf16le name)) \<le> 62" by auto
  from length_entry_layout [OF this] dir_entry_eq [of name t st sz c l r] a assms
  show "\<exists>e. dir_entry name t st sz c l r = Inr e \<and> length e = 128" by simp
next
  assume w: "within_capacity streams"
  from length_concat_uniform [OF dir_bytes_shape(2) [OF w]] dir_bytes_shape(1) [OF w]
    dir_sector_ok [OF w]
  show "\<exists>d. dir_sector streams = Inr d \<and> length d = 512" by simp
qed

theorem dir_entry_128_bytes_witness:
  "utf16_units (lit ''PowerPoint Document'') \<le> 31 \<and>
   dir_entry (lit ''PowerPoint Document'') 2 3 4096 NOSTREAM NOSTREAM NOSTREAM \<noteq> Inl AssertionError \<and>
   (\<exists>e. dir_entry (lit ''PowerPoint Document'') 2 3 4096 NOSTREAM NOSTREAM NOSTREAM = Inr e \<and>
        length e = 128) \<and>
   within_capacity ppt_streams \<and>
   (\<exists>d. dir_sector ppt_streams = Inr d \<and> length d = 512)"
  using dir_entry_128_bytes [of "lit ''PowerPoint Document''" 2 3 4096 NOSTREAM NOSTREAM NOSTREAM
      ppt_streams] ppt_name ppt_capacity
  by (simp add: NOSTREAM_def)

text \<open>
  C7. For every list of 0 to 3 streams within the capacity of the single FAT sector,
  \<^verbatim>\<open>build_ole2\<close> returns an image whose length is a multiple of 512 and equals
  \<open>4 * 512\<close> plus the sum over the streams of \<open>ceil(len(payload) / 512) * 512\<close>.
\<close>

theorem build_ole2_length:
  assumes "within_capacity streams"
  shows "\<exists>img. build_ole2 streams = Inr img \<and> 512 dvd length img \<and>
     int (length img) =
       4 * 512 + sum_list (map (\<lambda>(name, data). \<lceil>real (length data) / 512\<rceil> * 512) streams)"
proof -
  from assms obtain fat where
    f: "length fat = 128"
    "build_ole2 streams =
     Inr (header_bytes @ concat (map (le_bytes 4) fat) @ concat (dir_bytes streams)
          @ minifat_bytes @ concat (map (\<lambda>(name, data). pad_sector data) streams))"
    by (rule build_ole2_image)
  let ?B = "concat (map (\<lambda>(name, data). pad_sector data) streams)"
  let ?img = "header_bytes @ concat (map (le_bytes 4) fat) @ concat (dir_bytes streams)
          @ minifat_bytes @ ?B"
  have l: "length ?img = 2048 + length ?B"
    using f(1) length_dir_bytes [OF assms]
    by (simp add: length_header_bytes length_minifat_bytes)
  have "512 dvd length ?img"
    unfolding l using dvd_length_body [of streams] by simp
  moreover have "int (length ?img) =
       4 * 512 + sum_list (map (\<lambda>(name, data). \<lceil>real (length data) / 512\<rceil> * 512) streams)"
    unfolding l using length_body [of streams] by simp
  ultimately show ?thesis using f(2) by blast
qed

theorem build_ole2_length_witness:
  "within_capacity ppt_streams \<and>
   (\<exists>img. build_ole2 ppt_streams = Inr img \<and> 512 dvd length img \<and> int (length img) = 6144)"
proof -
  have "sum_list (map (\<lambda>(name, data). \<lceil>real (length data) / 512\<rceil> * 512) ppt_streams) = 4096"
    by (simp add: ppt_streams_def ceil_sectors len_def)
  with build_ole2_length [OF ppt_capacity] ppt_capacity show ?thesis by simp
qed

text \<open>
  C9. \<^verbatim>\<open>build_ole2\<close> returns an image exactly for the inputs within capacity, and in
  every image it returns the mini-FAT sector (absolute sector 2) consists of 128
  \<open>FREESECT\<close> entries, the FAT entry of sector 2 is \<open>ENDOFCHAIN\<close>, and the header
  records first mini-FAT sector 2 (offset 60) and mini-FAT sector count 1 (offset 64).
\<close>

theorem minifat_sector_free:
  "((\<exists>img. build_ole2 streams = Inr img) \<longleftrightarrow> within_capacity streams) \<and>
   (\<forall>img. build_ole2 streams = Inr img \<longrightarrow>
      (\<forall>k<128. int (minifat_entry img k) = FREESECT) \<and>
      int (fat_entry img 2) = ENDOFCHAIN \<and>
      u32_at img 60 = 2 \<and> u32_at img 64 = 1)"
proof (intro conjI allI impI)
  show "(\<exists>img. build_ole2 streams = Inr img) \<longleftrightarrow> within_capacity streams"
    by (rule build_ole2_returns_iff)
next
  fix img assume b: "build_ole2 streams = Inr img"
  then obtain fat where
    v: "within_capacity streams" "fat_table streams = Inr fat" "length fat = 128"
       "\<forall>x\<in>set fat. 0 \<le> x \<and> x < 2 ^ 32"
       "take 512 img = header_bytes"
       "sector_of img 0 = concat (map (le_bytes 4) fat)"
       "sector_of img 2 = minifat_bytes"
    by (rule build_ole2_view)
  from fat_table_ok [OF v(1)] v(2) have f2: "fat ! 2 = ENDOFCHAIN" by auto
  show "int (fat_entry img 2) = ENDOFCHAIN"
    unfolding fat_entry_def v(6) using fat_entry_concat [OF v(3,4), of 2] f2 by simp
  have "u32_at img 60 = u32_at (take 512 img) 60" by (simp add: u32_at_take)
  then show "u32_at img 60 = 2" unfolding v(5) by (simp add: header_u32)
  have "u32_at img 64 = u32_at (take 512 img) 64" by (simp add: u32_at_take)
  then show "u32_at img 64 = 1" unfolding v(5) by (simp add: header_u32)
  fix k :: nat assume "k < 128"
  then show "int (minifat_entry img k) = FREESECT"
    unfolding minifat_entry_def v(7) by (rule minifat_entries)
qed

theorem minifat_sector_free_witness:
  "within_capacity ppt_streams \<and> \<not> isl (build_ole2 ppt_streams) \<and>
   int (minifat_entry (projr (build_ole2 ppt_streams)) 0) = FREESECT \<and>
   int (minifat_entry (projr (build_ole2 ppt_streams)) 127) = FREESECT \<and>
   int (fat_entry (projr (build_ole2 ppt_streams)) 2) = ENDOFCHAIN \<and>
   u32_at (projr (build_ole2 ppt_streams)) 60 = 2 \<and>
   u32_at (projr (build_ole2 ppt_streams)) 64 = 1"
proof -
  from minifat_sector_free [of ppt_streams] ppt_capacity
  obtain img where i: "build_ole2 ppt_streams = Inr img" by blast
  with minifat_sector_free [of ppt_streams] ppt_capacity show ?thesis by simp
qed

text \<open>
  C4, as amended. In every image \<^verbatim>\<open>build_ole2\<close> returns the first 512 bytes are the
  fixed header: the 8-byte magic signature, a 16-byte zero CLSID, minor version \<open>0x3E\<close>
  (offset 24) and major version 3 (offset 26), byte-order marker \<open>0xFFFE\<close>, sector
  shift 9, mini-sector shift 6, directory sector count 0, FAT sector count 1 and first
  directory sector 1.
\<close>

theorem header_fields:
  "build_ole2 streams = Inr img \<Longrightarrow>
     header = Inr (take 512 img) \<and>
     take 8 img = magic \<and> take 16 (drop 8 img) = replicate 16 0 \<and>
     u16_at img 24 = 0x3E \<and> u16_at img 26 = 3 \<and> u16_at img 28 = 0xFFFE \<and>
     u16_at img 30 = 9 \<and> u16_at img 32 = 6 \<and>
     u32_at img 40 = 0 \<and> u32_at img 44 = 1 \<and> u32_at img 48 = 1"
proof -
  assume "build_ole2 streams = Inr img"
  then obtain fat where h: "take 512 img = header_bytes"
    by (rule build_ole2_view)
  have t8: "take 8 img = take 8 (take 512 img)" by simp
  have t16: "take 16 (drop 8 img) = take 16 (drop 8 (take 512 img))"
    by (simp add: drop_take)
  have u16: "u16_at img 24 = u16_at (take 512 img) 24" "u16_at img 26 = u16_at (take 512 img) 26"
    "u16_at img 28 = u16_at (take 512 img) 28" "u16_at img 30 = u16_at (take 512 img) 30"
    "u16_at img 32 = u16_at (take 512 img) 32"
    by (simp_all add: u16_at_take)
  have u32: "u32_at img 40 = u32_at (take 512 img) 40" "u32_at img 44 = u32_at (take 512 img) 44"
    "u32_at img 48 = u32_at (take 512 img) 48"
    by (simp_all add: u32_at_take)
  show ?thesis
    unfolding t8 t16 u16 u32 h
    by (simp add: header_eq header_prefix header_u16 header_u32)
qed

theorem header_fields_witness:
  "\<not> isl (build_ole2 []) \<and>
   header = Inr (take 512 (projr (build_ole2 []))) \<and>
   take 8 (projr (build_ole2 [])) = magic \<and>
   u16_at (projr (build_ole2 [])) 24 = 0x3E \<and> u16_at (projr (build_ole2 [])) 26 = 3 \<and>
   u32_at (projr (build_ole2 [])) 48 = 1"
proof -
  from build_ole2_returns_iff [of "[]"] empty_capacity
  obtain img where i: "build_ole2 [] = Inr img" by blast
  from header_fields [OF i] i show ?thesis by simp
qed

text \<open>
  In the image of the empty stream list the field at offset 24 is not 3 and the field at
  offset 26 is not \<open>0x3E\<close>: the two version numbers are the other way round.
\<close>

theorem header_version_counterexample:
  "\<not> isl (build_ole2 []) \<and>
   u16_at (projr (build_ole2 [])) 24 \<noteq> 3 \<and> u16_at (projr (build_ole2 [])) 26 \<noteq> 0x3E"
proof -
  from build_ole2_returns_iff [of "[]"] empty_capacity
  obtain img where i: "build_ole2 [] = Inr img" by blast
  then obtain fat where h: "take 512 img = header_bytes"
    by (rule build_ole2_view)
  have "u16_at img 24 = u16_at (take 512 img) 24" "u16_at img 26 = u16_at (take 512 img) 26"
    by (simp_all add: u16_at_take)
  then have "u16_at img 24 = 0x3E" "u16_at img 26 = 3"
    unfolding h by (simp_all add: header_u16)
  with i show ?thesis by simp
qed

text \<open>
  C5. For every stream list within capacity \<^verbatim>\<open>build_ole2\<close> returns an image whose FAT
  sector has entries 0, 1, 2 equal to \<open>FATSECT\<close>, \<open>ENDOFCHAIN\<close>, \<open>ENDOFCHAIN\<close>; for
  each stream, with start sector \<open>s\<close> and \<open>n\<close> sectors, the run lies in
  \<open>[3, total_sectors)\<close>, entries \<open>s .. s+n-2\<close> hold \<open>s+1 .. s+n-1\<close>, entry \<open>s+n-1\<close> is
  \<open>ENDOFCHAIN\<close>, and the chain followed from \<open>s\<close> visits exactly the \<open>n\<close> sectors
  \<open>s .. s+n-1\<close>; every entry from \<open>total_sectors\<close> on is \<open>FREESECT\<close>.
\<close>

theorem fat_sector_layout:
  assumes "within_capacity streams"
  shows "\<exists>img. build_ole2 streams = Inr img \<and>
     int (fat_entry img 0) = FATSECT \<and> int (fat_entry img 1) = ENDOFCHAIN \<and>
     int (fat_entry img 2) = ENDOFCHAIN \<and>
     (\<forall>i<length streams.
        3 \<le> sector_starts 3 streams ! i \<and>
        sector_starts 3 streams ! i + nsectors (snd (streams ! i)) \<le> total_sectors streams \<and>
        (\<forall>j. 0 \<le> j \<and> j < nsectors (snd (streams ! i)) - 1 \<longrightarrow>
           int (fat_entry img (nat (sector_starts 3 streams ! i + j))) =
             sector_starts 3 streams ! i + j + 1) \<and>
        int (fat_entry img (nat (sector_starts 3 streams ! i + nsectors (snd (streams ! i)) - 1))) =
          ENDOFCHAIN \<and>
        fat_chain img 128 (nat (sector_starts 3 streams ! i)) =
          Some [nat (sector_starts 3 streams ! i) ..<
                nat (sector_starts 3 streams ! i + nsectors (snd (streams ! i)))]) \<and>
     (\<forall>k<128. total_sectors streams \<le> int k \<longrightarrow> int (fat_entry img k) = FREESECT)"
  using assms by (rule fat_layout)

theorem fat_sector_layout_witness:
  "within_capacity ppt_streams \<and> \<not> isl (build_ole2 ppt_streams) \<and>
   int (fat_entry (projr (build_ole2 ppt_streams)) 0) = FATSECT \<and>
   int (fat_entry (projr (build_ole2 ppt_streams)) 1) = ENDOFCHAIN \<and>
   int (fat_entry (projr (build_ole2 ppt_streams)) 2) = ENDOFCHAIN \<and>
   int (fat_entry (projr (build_ole2 ppt_streams)) 3) = 4 \<and>
   int (fat_entry (projr (build_ole2 ppt_streams)) 10) = ENDOFCHAIN \<and>
   fat_chain (projr (build_ole2 ppt_streams)) 128 3 = Some [3, 4, 5, 6, 7, 8, 9, 10] \<and>
   int (fat_entry (projr (build_ole2 ppt_streams)) 11) = FREESECT"
proof -
  from fat_sector_layout [OF ppt_capacity] obtain img where
    b: "build_ole2 ppt_streams = Inr img"
    and e: "int (fat_entry img 0) = FATSECT" "int (fat_entry img 1) = ENDOFCHAIN"
       "int (fat_entry img 2) = ENDOFCHAIN"
    and r: "\<forall>i<length ppt_streams.
        3 \<le> sector_starts 3 ppt_streams ! i \<and>
        sector_starts 3 ppt_streams ! i + nsectors (snd (ppt_streams ! i)) \<le> total_sectors ppt_streams \<and>
        (\<forall>j. 0 \<le> j \<and> j < nsectors (snd (ppt_streams ! i)) - 1 \<longrightarrow>
           int (fat_entry img (nat (sector_starts 3 ppt_streams ! i + j))) =
             sector_starts 3 ppt_streams ! i + j + 1) \<and>
        int (fat_entry img (nat (sector_starts 3 ppt_streams ! i + nsectors (snd (ppt_streams ! i)) - 1))) =
          ENDOFCHAIN \<and>
        fat_chain img 128 (nat (sector_starts 3 ppt_streams ! i)) =
          Some [nat (sector_starts 3 ppt_streams ! i) ..<
                nat (sector_starts 3 ppt_streams ! i + nsectors (snd (ppt_streams ! i)))]"
    and fr: "\<forall>k<128. total_sectors ppt_streams \<le> int k \<longrightarrow> int (fat_entry img k) = FREESECT"
    by auto
  from r [rule_format, of 0] have
    j: "\<forall>j. 0 \<le> j \<and> j < 7 \<longrightarrow> int (fat_entry img (nat (3 + j))) = 3 + j + 1"
    and l: "int (fat_entry img (nat 10)) = ENDOFCHAIN"
    and c: "fat_chain img 128 (nat 3) = Some [nat 3 ..< nat 11]"
    by (simp_all add: ppt_facts)
  have u: "[nat 3 ..< nat 11] = [3, 4, 5, 6, 7, 8, 9, 10]" by (simp add: upt_rec_numeral)
  from j [rule_format, of 0] l c u fr [rule_format, of 11] e b ppt_capacity
  show ?thesis by (simp add: ppt_facts)
qed

text \<open>
  C6. For every stream list within capacity (so of length \<open>N \<le> 3\<close>) the directory
  sector of the image holds exactly 4 entries of 128 bytes: entry 0 is the root (type 5)
  whose child link is 1 if \<open>N > 0\<close> and \<open>NOSTREAM\<close> otherwise; each stream entry \<open>i\<close>
  (from 1) has right sibling \<open>i + 1\<close> if a next stream exists and \<open>NOSTREAM\<close>
  otherwise, left sibling \<open>NOSTREAM\<close>, and records its start sector and byte size;
  the entries beyond index \<open>N\<close> are 128 zero bytes.
\<close>

theorem directory_sector_layout:
  assumes "within_capacity streams"
  shows "\<exists>img. build_ole2 streams = Inr img \<and>
     length (sector_of img 1) = 4 * 128 \<and>
     entry_type (dir_entry_of img 0) = 5 \<and>
     int (entry_child (dir_entry_of img 0)) = (if 0 < length streams then 1 else NOSTREAM) \<and>
     (\<forall>i. 1 \<le> i \<and> i \<le> length streams \<longrightarrow>
        entry_type (dir_entry_of img i) = 2 \<and>
        int (entry_right (dir_entry_of img i)) =
          (if i < length streams then int i + 1 else NOSTREAM) \<and>
        int (entry_left (dir_entry_of img i)) = NOSTREAM \<and>
        int (entry_start (dir_entry_of img i)) = sector_starts 3 streams ! (i - 1) \<and>
        int (entry_size (dir_entry_of img i)) = len (snd (streams ! (i - 1)))) \<and>
     (\<forall>k. length streams < k \<and> k < 4 \<longrightarrow> dir_entry_of img k = replicate 128 0)"
  using assms by (rule dir_layout)

theorem directory_sector_layout_witness:
  "within_capacity two_streams \<and> \<not> isl (build_ole2 two_streams) \<and>
   length (sector_of (projr (build_ole2 two_streams)) 1) = 512 \<and>
   entry_type (dir_entry_of (projr (build_ole2 two_streams)) 0) = 5 \<and>
   int (entry_child (dir_entry_of (projr (build_ole2 two_streams)) 0)) = 1 \<and>
   int (entry_right (dir_entry_of (projr (build_ole2 two_streams)) 1)) = 2 \<and>
   int (entry_left (dir_entry_of (projr (build_ole2 two_streams)) 1)) = NOSTREAM \<and>
   int (entry_right (dir_entry_of (projr (build_ole2 two_streams)) 2)) = NOSTREAM \<and>
   int (entry_left (dir_entry_of (projr (build_ole2 two_streams)) 2)) = NOSTREAM \<and>
   dir_entry_of (projr (build_ole2 two_streams)) 3 = replicate 128 0"
proof -
  from directory_sector_layout [OF two_capacity] obtain img where
    b: "build_ole2 two_streams = Inr img"
    and l: "length (sector_of img 1) = 4 * 128"
    and r: "entry_type (dir_entry_of img 0) = 5"
      "int (entry_child (dir_entry_of img 0)) = (if 0 < length two_streams then 1 else NOSTREAM)"
    and e: "\<forall>i. 1 \<le> i \<and> i \<le> length two_streams \<longrightarrow>
        entry_type (dir_entry_of img i) = 2 \<and>
        int (entry_right (dir_entry_of img i)) =
          (if i < length two_streams then int i + 1 else NOSTREAM) \<and>
        int (entry_left (dir_entry_of img i)) = NOSTREAM \<and>
        int (entry_start (dir_entry_of img i)) = sector_starts 3 two_streams ! (i - 1) \<and>
        int (entry_size (dir_entry_of img i)) = len (snd (two_streams ! (i - 1)))"
    and z: "\<forall>k. length two_streams < k \<and> k < 4 \<longrightarrow> dir_entry_of img k = replicate 128 0"
    by auto
  have n: "length two_streams = 2" by (simp add: two_streams_def)
  from e [rule_format, of 1] e [rule_format, of 2] z [rule_format, of 3] b l r two_capacity
  show ?thesis by (simp add: n)
qed

text \<open>
  C1, as amended. For the single stream \<open>("PowerPoint Document", 4096 zero bytes)\<close>
  \<^verbatim>\<open>build_ole2\<close> returns an image of exactly 6144 bytes in which FAT entries 3 to 9
  point to the next sector (entry 3 holds 4, entry 9 holds 10) and FAT entry 10 is
  \<open>ENDOFCHAIN\<close>, the chain from sector 3 visiting the eight sectors 3 to 10, and
  directory entry 1 names "PowerPoint Document" (null-padded, name length 40) with
  start sector 3 and stream byte size 4096.
\<close>

theorem ppt_single_stream_image:
  "\<exists>img. build_ole2 ppt_streams = Inr img \<and> length img = 2048 + 4096 \<and>
     int (fat_entry img 3) = 4 \<and> int (fat_entry img 9) = 10 \<and>
     int (fat_entry img 10) = ENDOFCHAIN \<and>
     fat_chain img 128 3 = Some [3, 4, 5, 6, 7, 8, 9, 10] \<and>
     Inr (take 38 (dir_entry_of img 1)) = encode_utf16le (lit ''PowerPoint Document'') \<and>
     drop 38 (entry_name (dir_entry_of img 1)) = replicate 26 0 \<and>
     entry_name_len (dir_entry_of img 1) = 40 \<and>
     entry_type (dir_entry_of img 1) = 2 \<and>
     entry_start (dir_entry_of img 1) = 3 \<and>
     entry_size (dir_entry_of img 1) = 4096"
proof -
  from build_ole2_returns_iff [of ppt_streams] ppt_capacity
  obtain img where b: "build_ole2 ppt_streams = Inr img" by blast
  from ppt_fat(4-7) [OF b] ppt_image [OF b] b show ?thesis by simp
qed

text \<open>
  For the single 4096-byte stream FAT entry 3 holds 4, the next sector of the chain, and
  not \<open>ENDOFCHAIN\<close>.
\<close>

theorem ppt_fat_entry_3_counterexample:
  "\<not> isl (build_ole2 ppt_streams) \<and>
   int (fat_entry (projr (build_ole2 ppt_streams)) 3) = 4 \<and>
   int (fat_entry (projr (build_ole2 ppt_streams)) 3) \<noteq> ENDOFCHAIN"
proof -
  from build_ole2_returns_iff [of ppt_streams] ppt_capacity
  obtain img where b: "build_ole2 ppt_streams = Inr img" by blast
  from ppt_fat(4) [OF b] b show ?thesis by (simp add: ENDOFCHAIN_def)
qed

text \<open>
  C10. In every stream \<^verbatim>\<open>make_summary_stream\<close> returns, the ID/offset table of the
  section lists 0x02 if and only if the title is non-empty, then 0x04 if and only if the
  author is non-empty, then 0x0E, the page count, always present and last. Each listed
  offset points inside the section at the encoded property: the first value starts right
  after the table, the last offset holds the \<open>VT_I4\<close> page count, and the offset of a
  listed title or author holds its \<open>VT_LPSTR\<close> value. The call returns for every
  32-bit signed page count (strings below \<open>2^30\<close> characters); an omitted string
  argument is the empty string.
\<close>

theorem summary_property_ids:
  "(\<forall>stream. make_summary_stream page_count title author = Inr stream \<longrightarrow>
      section_ids stream =
        (if title \<noteq> [] then [0x02] else []) @ (if author \<noteq> [] then [0x04] else []) @ [0x0E] \<and>
      last (section_ids stream) = 0x0E \<and>
      (0x02 \<in> set (section_ids stream) \<longleftrightarrow> title \<noteq> []) \<and>
      (0x04 \<in> set (section_ids stream) \<longleftrightarrow> author \<noteq> []) \<and>
      length (section_offsets stream) = length (section_ids stream) \<and>
      hd (section_offsets stream) = 8 + 8 * length (section_ids stream) \<and>
      i4_property_at (section_bytes stream) (last (section_offsets stream)) page_count \<and>
      (title \<noteq> [] \<longrightarrow>
         lpstr_property_at (section_bytes stream) (section_offsets stream ! 0) title) \<and>
      (author \<noteq> [] \<longrightarrow>
         lpstr_property_at (section_bytes stream)
           (section_offsets stream ! (if title \<noteq> [] then 1 else 0)) author)) \<and>
   (- (2 ^ 31) \<le> page_count \<and> page_count < 2 ^ 31 \<and>
    length title < 2 ^ 30 \<and> length author < 2 ^ 30 \<longrightarrow>
      (\<exists>stream. make_summary_stream page_count title author = Inr stream))"
proof (intro conjI allI impI)
  assume "- (2 ^ 31) \<le> page_count \<and> page_count < 2 ^ 31 \<and>
    length title < 2 ^ 30 \<and> length author < 2 ^ 30"
  then show "\<exists>stream. make_summary_stream page_count title author = Inr stream"
    using make_summary_stream_ok [of page_count title author] by blast
next
  fix stream assume m: "make_summary_stream page_count title author = Inr stream"
  note i = make_summary_stream_Inr(1) [OF m]
  show "section_ids stream =
        (if title \<noteq> [] then [0x02] else []) @ (if author \<noteq> [] then [0x04] else []) @ [0x0E]"
    by (rule i)
  show "last (section_ids stream) = 0x0E" unfolding i by simp
  show "(0x02 \<in> set (section_ids stream)) = (title \<noteq> [])" unfolding i by simp
  show "(0x04 \<in> set (section_ids stream)) = (author \<noteq> [])" unfolding i by simp
  from stream_properties [OF m] obtain props where
    p: "summary_props page_count title author = Inr props"
    and lo: "length (section_offsets stream) = length props"
    and li: "length (section_ids stream) = length props"
    and h: "hd (section_offsets stream) = 8 + 8 * length props"
    and v: "\<forall>k<length props.
        section_offsets stream ! k + length (snd (props ! k)) \<le> length (section_bytes stream) \<and>
        take (length (snd (props ! k))) (drop (section_offsets stream ! k) (section_bytes stream))
          = snd (props ! k)"
    by blast
  note sv = summary_props_values [OF p]
  show "length (section_offsets stream) = length (section_ids stream)" using lo li by simp
  show "hd (section_offsets stream) = 8 + 8 * length (section_ids stream)" using h li by simp
  have ne: "section_offsets stream \<noteq> []" "props \<noteq> []" using lo sv(1) by auto
  have lastp: "props ! (length props - 1) = (0x0E, i4_value page_count)"
    using sv(1) by (auto simp: nth_append)
  have "last (section_offsets stream) = section_offsets stream ! (length props - 1)"
    using ne lo by (simp add: last_conv_nth)
  moreover from v [rule_format, of "length props - 1"] ne lastp have
    "section_offsets stream ! (length props - 1) + 6 \<le> length (section_bytes stream)"
    "take 6 (drop (section_offsets stream ! (length props - 1)) (section_bytes stream))
       = i4_value page_count"
    by (simp_all add: i4_value_def)
  ultimately show "i4_property_at (section_bytes stream) (last (section_offsets stream)) page_count"
    using sv(2,3) by (simp add: i4_property_atI)
  show "lpstr_property_at (section_bytes stream) (section_offsets stream ! 0) title"
    if t: "title \<noteq> []"
  proof -
    have "props ! 0 = (0x02, lpstr_value title)" using sv(1) t by simp
    with v [rule_format, of 0] ne sv(4) [OF t] show ?thesis
      by (intro lpstr_property_atI) simp_all
  qed
  show "lpstr_property_at (section_bytes stream)
      (section_offsets stream ! (if title \<noteq> [] then 1 else 0)) author"
    if a: "author \<noteq> []"
  proof -
    let ?k = "if title \<noteq> [] then 1 else 0 :: nat"
    have "props ! ?k = (0x04, lpstr_value author)" "?k < length props"
      using sv(1) a by auto
    with v [rule_format, of ?k] sv(5) [OF a] show ?thesis
      by (intro lpstr_property_atI) simp_all
  qed
qed

theorem summary_property_ids_witness:
  "\<not> isl (make_summary_stream 7 (lit ''T'') []) \<and>
   section_ids (projr (make_summary_stream 7 (lit ''T'') [])) = [0x02, 0x0E] \<and>
   last (section_ids (projr (make_summary_stream 7 (lit ''T'') []))) = 0x0E \<and>
   hd (section_offsets (projr (make_summary_stream 7 (lit ''T'') []))) = 24 \<and>
   lpstr_property_at (section_bytes (projr (make_summary_stream 7 (lit ''T'') [])))
     (section_offsets (projr (make_summary_stream 7 (lit ''T'') [])) ! 0) (lit ''T'') \<and>
   i4_property_at (section_bytes (projr (make_summary_stream 7 (lit ''T'') [])))
     (last (section_offsets (projr (make_summary_stream 7 (lit ''T'') [])))) 7"
proof -
  from summary_property_ids [of 7 "lit ''T''" "[]"]
  obtain stream where s: "make_summary_stream 7 (lit ''T'') [] = Inr stream"
    by (auto simp: lit_def)
  with summary_property_ids [of 7 "lit ''T''" "[]"] show ?thesis by (simp add: lit_def)
qed

text \<open>
  C2, as amended. In every stream \<^verbatim>\<open>make_summary_stream(page_count)\<close> returns for an
  empty title and author, the section holds exactly one property, with ID 0x0E; the
  encoded section is 22 bytes long and its size field holds 24, the length rounded up to
  the next multiple of 4 (the offset loop aligns after the last value, the value loop
  pads only between values). The call returns for every 32-bit signed page count.
\<close>

theorem single_property_section:
  "(\<forall>stream. make_summary_stream page_count [] [] = Inr stream \<longrightarrow>
      section_ids stream = [0x0E] \<and> section_count stream = 1 \<and>
      length (section_bytes stream) = 22 \<and> section_size stream = 24 \<and>
      section_size stream = 4 * ((length (section_bytes stream) + 3) div 4)) \<and>
   (- (2 ^ 31) \<le> page_count \<and> page_count < 2 ^ 31 \<longrightarrow>
      (\<exists>stream. make_summary_stream page_count [] [] = Inr stream))"
proof (intro conjI allI impI)
  fix stream assume m: "make_summary_stream page_count [] [] = Inr stream"
  note f = summary_single_Inr [OF m]
  show "section_ids stream = [0x0E]" "section_count stream = 1"
    "length (section_bytes stream) = 22" "section_size stream = 24" by (rule f)+
  show "section_size stream = 4 * ((length (section_bytes stream) + 3) div 4)"
    unfolding f by simp
next
  assume "- (2 ^ 31) \<le> page_count \<and> page_count < 2 ^ 31"
  then show "\<exists>stream. make_summary_stream page_count [] [] = Inr stream"
    using make_summary_stream_ok [of page_count "[]" "[]"] by auto
qed

theorem single_property_section_witness:
  "\<not> isl (make_summary_stream 10 [] []) \<and>
   section_ids (projr (make_summary_stream 10 [] [])) = [0x0E] \<and>
   section_count (projr (make_summary_stream 10 [] [])) = 1 \<and>
   length (section_bytes (projr (make_summary_stream 10 [] []))) = 22 \<and>
   section_size (projr (make_summary_stream 10 [] [])) = 24"
proof -
  from single_property_section [of 10]
  obtain stream where s: "make_summary_stream 10 [] [] = Inr stream" by auto
  with single_property_section [of 10] show ?thesis by simp
qed

text \<open>
  For page count 10 and no title or author the size field of the section differs from
  the length of the section as emitted.
\<close>

theorem section_size_counterexample:
  "\<not> isl (make_summary_stream 10 [] []) \<and>
   section_size (projr (make_summary_stream 10 [] [])) \<noteq>
     length (section_bytes (projr (make_summary_stream 10 [] [])))"
proof -
  from make_summary_stream_ok [of 10 "[]" "[]"]
  obtain stream where s: "make_summary_stream 10 [] [] = Inr stream" by auto
  from summary_single_Inr(3,4) [OF s] s show ?thesis by simp
qed

text \<open>
  C3, as amended. \<^verbatim>\<open>build_ole2\<close> stores each payload padded with zero bytes only up
  to the next 512-byte boundary: for every stream list within capacity the bytes after
  the four fixed sectors are the payloads, each followed by its padding, and a payload of
  \<open>L\<close> bytes occupies \<open>ceil(L / 512) * 512\<close> bytes. The padding to the 4096-byte
  mini-stream cutoff is done by the caller: \<^verbatim>\<open>make_doc_10page\<close> left-justifies its
  summary stream (shorter than 4096 bytes) to exactly 4096 bytes before it calls
  \<^verbatim>\<open>build_ole2\<close>, and that payload is stored unchanged.
\<close>

theorem payload_sector_padding:
  "(within_capacity streams \<longrightarrow>
      (\<exists>img. build_ole2 streams = Inr img \<and>
         drop 2048 img = concat (map (\<lambda>(name, data). pad_sector data) streams))) \<and>
   int (length (pad_sector data)) = \<lceil>real (length data) / 512\<rceil> * 512 \<and>
   take (length data) (pad_sector data) = data \<and>
   set (drop (length data) (pad_sector data)) \<subseteq> {0} \<and>
   (\<exists>summary img.
      make_summary_stream 10 (lit ''Legacy Word Test'') (lit ''DocReader Tests'') = Inr summary \<and>
      length summary < 4096 \<and> length (ljust summary 4096 0) = 4096 \<and>
      make_doc_10page = Inr img \<and> length img = 2048 + 4096 \<and>
      drop 2048 img = ljust summary 4096 0)"
proof (intro conjI impI)
  assume w: "within_capacity streams"
  with build_ole2_returns_iff obtain img where b: "build_ole2 streams = Inr img" by blast
  then obtain fat where
    "drop 2048 img = concat (map (\<lambda>(name, data). pad_sector data) streams)"
    by (rule build_ole2_view)
  with b show "\<exists>img. build_ole2 streams = Inr img \<and>
         drop 2048 img = concat (map (\<lambda>(name, data). pad_sector data) streams)" by blast
qed (rule pad_sector_props doc_image)+

theorem payload_sector_padding_witness:
  "within_capacity two_streams \<and> \<not> isl (build_ole2 two_streams) \<and>
   drop 2048 (projr (build_ole2 two_streams)) = pad_sector [1] @ pad_sector [2] \<and>
   int (length (pad_sector [1])) = 512"
proof -
  from payload_sector_padding [of two_streams "[1]"] two_capacity
  obtain img where "build_ole2 two_streams = Inr img"
    "drop 2048 img = concat (map (\<lambda>(name, data). pad_sector data) two_streams)"
    by blast
  moreover have "\<lceil>real (length [1::byte]) / 512\<rceil> = 1"
    using ceil_sectors [of "[1::byte]"] by (simp add: len_def)
  then have "int (length (pad_sector [1])) = 512"
    using payload_sector_padding [of two_streams "[1]"] by simp
  ultimately show ?thesis using two_capacity by (simp add: two_streams_def)
qed

text \<open>
  Two one-byte payloads are stored in one 512-byte sector each, far below 4096 bytes, and
  the directory records their size as 1.
\<close>

theorem small_payload_counterexample:
  "\<not> isl (build_ole2 two_streams) \<and>
   length (projr (build_ole2 two_streams)) = 2048 + 512 + 512 \<and>
   entry_size (dir_entry_of (projr (build_ole2 two_streams)) 1) = 1 \<and>
   entry_size (dir_entry_of (projr (build_ole2 two_streams)) 2) = 1"
proof -
  from build_ole2_returns_iff [of two_streams] two_capacity
  obtain img where b: "build_ole2 two_streams = Inr img" by blast
  from two_image [OF b] b show ?thesis by simp
qed

end
